theory Spec2Isabelle
  imports Complex_Main "HOL-Library.Word"
begin

section \<open>Host-language values\<close>

text \<open>
  The host script \<^verbatim>\<open>www/main.mjs\<close> computes with the numbers of its language:
  a number is NaN, an infinity or a finite value. Finite values are kept exact (as
  rationals), which is all the script relies on: it only tests them for zero, compares
  them with small integers and converts them to array lengths and 32-bit integers.
\<close>

datatype jsnum = NaN | Num rat | PosInfinity | NegInfinity

text \<open>Truthiness of a number, as the operator \<^verbatim>\<open>||\<close> tests it: NaN and zero are falsy.\<close>

fun truthy :: "jsnum \<Rightarrow> bool" where
  "truthy NaN = False"
| "truthy (Num r) = (r \<noteq> 0)"
| "truthy PosInfinity = True"
| "truthy NegInfinity = True"

text \<open>
  Unary plus on the value read from \<^verbatim>\<open>localStorage.coreOverride\<close>. The storage holds
  strings only; when the key is present the language's string-to-number conversion gives
  a number, which is what \<open>Some\<close> holds here (\<^verbatim>\<open>"3"\<close> gives 3, \<^verbatim>\<open>"0"\<close> and \<^verbatim>\<open>""\<close> give 0,
  \<^verbatim>\<open>"auto"\<close> gives NaN). When the key is absent the read gives \<^verbatim>\<open>undefined\<close> (\<open>None\<close>),
  which converts to NaN.
\<close>

definition unaryPlus :: "jsnum option \<Rightarrow> jsnum" where
  "unaryPlus v = (case v of None \<Rightarrow> NaN | Some n \<Rightarrow> n)"

datatype js_error =
    RangeError
  | TypeError
  | ReferenceError string
  | Error string
  | WorkerConstructionError

text \<open>Truncation towards zero, and the conversion of a number to a signed 32-bit cell.\<close>

definition truncToInt :: "rat \<Rightarrow> int" where
  "truncToInt r = (if 0 \<le> r then \<lfloor>r\<rfloor> else \<lceil>r\<rceil>)"

definition toInt32 :: "jsnum \<Rightarrow> 32 word" where
  "toInt32 n = (case n of Num r \<Rightarrow> word_of_int (truncToInt r) | _ \<Rightarrow> 0)"

text \<open>
  \<^verbatim>\<open>Array(n)\<close> with a single numeric argument: the length must be an integer in
  \<open>[0, 2^32 - 1]\<close>, anything else throws RangeError.
\<close>

definition arrayOfLength :: "jsnum \<Rightarrow> js_error + nat" where
  "arrayOfLength n =
     (case n of
        Num r \<Rightarrow>
          (if 0 \<le> r \<and> r < 2 ^ 32 \<and> of_int \<lfloor>r\<rfloor> = r then Inr (nat \<lfloor>r\<rfloor>)
           else Inl RangeError)
      | _ \<Rightarrow> Inl RangeError)"

section \<open>The environment read at startup\<close>

record env =
  sharedArrayBuffer :: bool
  coreOverride :: "jsnum option"
  hardwareConcurrency :: "nat option"
  workerCtorThrows :: "nat \<Rightarrow> bool"
  renderCtorThrows :: bool

text \<open>
  \<open>coreOverride\<close>: the numeric reading of \<^verbatim>\<open>localStorage.coreOverride\<close>, \<open>None\<close> when the
  key is not set. \<open>hardwareConcurrency\<close>: \<^verbatim>\<open>navigator.hardwareConcurrency\<close>, \<open>None\<close> where
  the platform does not report it. \<open>workerCtorThrows i\<close>: whether \<^verbatim>\<open>new Worker(...)\<close>
  throws for logic worker \<open>i\<close>, which rejects that worker's promise.
\<close>

definition defaultHardwareConcurrency :: nat where
  "defaultHardwareConcurrency = 4"

definition reservedCores :: int where
  "reservedCores = 2"

text \<open>\<^verbatim>\<open>navigator.hardwareConcurrency || defaultHardwareConcurrency\<close>\<close>

definition reportedConcurrency :: "env \<Rightarrow> nat" where
  "reportedConcurrency e =
     (case hardwareConcurrency e of
        None \<Rightarrow> defaultHardwareConcurrency
      | Some h \<Rightarrow> if h = 0 then defaultHardwareConcurrency else h)"

definition availableCores :: "env \<Rightarrow> jsnum" where
  "availableCores e =
     (let ov = unaryPlus (coreOverride e)
      in if truthy ov then ov
         else Num (of_int (max 1 (int (reportedConcurrency e) - reservedCores))))"

section \<open>The shared world\<close>

definition totalPixels :: nat where
  "totalPixels = 3840 * 2160"

text \<open>
  The integer arrays of \<^verbatim>\<open>world\<close>; a typed array over a fresh buffer is zero-filled.
  The Float32 arrays (initiative, velocity, subpixel position, mass, temperature) are
  never read or written by the host script and are left out.
\<close>

record world =
  lock :: "32 word"
  tick :: "64 word"
  workersRunning :: "32 word"
  bounds_x :: "32 word"
  bounds_y :: "32 word"
  wrappingBehaviour :: "8 word list"
  p_lock :: "32 word list"
  p_type :: "8 word list"
  p_tick :: "64 word list"
  p_abgr :: "32 word list"
  p_scratch1 :: "64 word list"
  p_scratch2 :: "64 word list"

definition newTypedArray :: "nat \<Rightarrow> ('a::len) word list" where
  "newTypedArray n = replicate n 0"

text \<open>\<^verbatim>\<open>Array.prototype.fill.call(a, v)\<close>: every element becomes \<open>v\<close>.\<close>

definition fill :: "'a list \<Rightarrow> 'a \<Rightarrow> 'a list" where
  "fill a v = map (\<lambda>_. v) a"

definition allocWorld :: world where
  "allocWorld =
     \<lparr> lock = 0, tick = 0, workersRunning = 0, bounds_x = 0, bounds_y = 0,
       wrappingBehaviour = newTypedArray 4,
       p_lock = newTypedArray totalPixels,
       p_type = newTypedArray totalPixels,
       p_tick = newTypedArray totalPixels,
       p_abgr = newTypedArray totalPixels,
       p_scratch1 = newTypedArray totalPixels,
       p_scratch2 = newTypedArray totalPixels \<rparr>"

text \<open>Lines 38 to 77: allocation, then the edge behaviour is filled with 1 (wall).\<close>

definition initWorld :: world where
  "initWorld = allocWorld\<lparr> wrappingBehaviour := fill (wrappingBehaviour allocWorld) 1 \<rparr>"

section \<open>Atomics\<close>

text \<open>
  \<^verbatim>\<open>Atomics.compareExchange(cell, 0, expected, replacement)\<close> returns the old value and
  stores the replacement when the old value equals the expected one.
\<close>

definition compareExchange :: "32 word \<Rightarrow> 32 word \<Rightarrow> 32 word \<Rightarrow> 32 word \<times> 32 word" where
  "compareExchange cell expected replacement =
     (cell, if cell = expected then replacement else cell)"

text \<open>\<^verbatim>\<open>Atomics.add\<close> on a BigInt64 cell: returns the old value, stores the sum modulo \<open>2^64\<close>.\<close>

definition atomicsAdd :: "64 word \<Rightarrow> 64 word \<Rightarrow> 64 word \<times> 64 word" where
  "atomicsAdd cell v = (cell, cell + v)"

text \<open>
  \<^verbatim>\<open>Atomics.notify(cell, 0)\<close> with no count wakes every agent waiting on the cell: it
  returns how many were woken and leaves the wait list empty.
\<close>

definition atomicsNotify :: "nat list \<Rightarrow> nat \<times> nat list" where
  "atomicsNotify waiters = (length waiters, [])"

section \<open>Messages, callbacks and the host state\<close>

datatype val = VNum int | VStr string | VWorld

text \<open>
  A control message \<^verbatim>\<open>{type, data, error}\<close>: \<open>None\<close> is \<^verbatim>\<open>undefined\<close>; the payload,
  when present, is an array.
\<close>

record message =
  mtype :: string
  mdata :: "val list option"
  merror :: "val option"

datatype channel = Ok | Err

text \<open>
  What a table of callbacks can hold under a kind: one of the script's own functions, or a
  member that the table inherits from \<^verbatim>\<open>Object.prototype\<close>.
\<close>

datatype callback = Pong | ReadyLogic nat | ReadyRender | ConsoleError | Inherited string

datatype console_entry =
    LogPong "val option"
  | ErrorMalformed string
  | ErrorUnknownEvent channel string
  | ErrorValues "val option list"
  | InfoLoadedLogic nat nat
  | InfoLoadedRender
  | InfoBoundUI

datatype promise = Pending | Fulfilled | Rejected

datatype target = LogicWorker nat | RenderWorker

datatype page = GamePage | NoSharedMemoryDiagnostic | NoCoresDiagnostic

datatype phase = AwaitLogic | AwaitRender | Bound | Failed js_error

datatype outcome = Returned | Threw js_error

text \<open>
  The state the script builds up. \<open>cores\<close> is the constant \<^verbatim>\<open>availableCores\<close>;
  \<open>logicPromises\<close> are the states of \<^verbatim>\<open>pendingLogicCores\<close>; \<open>logicCores\<close> is the constant of
  that name, bound once the await of line 152 completes (as the indices of its workers in
  \<^verbatim>\<open>pendingLogicCores\<close>); \<open>outbox\<close> lists every \<^verbatim>\<open>postMessage\<close> in order; \<open>waiting\<close> are
  the agents blocked on \<^verbatim>\<open>world.tick\<close>; \<open>frameLoop\<close> says that \<^verbatim>\<open>advanceTick\<close> is scheduled
  for the next display refresh; \<open>uiBound\<close> that \<^verbatim>\<open>bindWorldToDisplay\<close> was called;
  \<open>uncaught\<close> collects exceptions that left a message listener.
\<close>

record host =
  cores :: jsnum
  world :: world
  waiting :: "nat list"
  logicPromises :: "promise list"
  renderPromise :: promise
  logicCores :: "nat list option"
  outbox :: "(target \<times> message) list"
  console :: "console_entry list"
  body :: page
  phase :: phase
  frameLoop :: bool
  uiBound :: bool
  uncaught :: "js_error list"

definition postMessage :: "target \<Rightarrow> message \<Rightarrow> host \<Rightarrow> host" where
  "postMessage t m h = h\<lparr> outbox := outbox h @ [(t, m)] \<rparr>"

definition consoleWrite :: "console_entry \<Rightarrow> host \<Rightarrow> host" where
  "consoleWrite c h = h\<lparr> console := console h @ [c] \<rparr>"

definition helloMsg :: message where
  "helloMsg = \<lparr> mtype = ''hello'', mdata = Some [], merror = None \<rparr>"

definition startMsg :: "nat \<Rightarrow> nat \<Rightarrow> message" where
  "startMsg coreNumber count =
     \<lparr> mtype = ''start'',
       mdata = Some [VNum (int coreNumber), VNum (int count), VWorld],
       merror = None \<rparr>"

definition bindToDataMsg :: message where
  "bindToDataMsg = \<lparr> mtype = ''bindToData'', mdata = Some [VWorld], merror = None \<rparr>"

text \<open>Lines 85 to 90: the shared callbacks.\<close>

definition callbacks :: "channel \<Rightarrow> (string \<times> callback) list" where
  "callbacks ch = (case ch of Ok \<Rightarrow> [(''hello'', Pong), (''pong'', Pong)] | Err \<Rightarrow> [])"

text \<open>Lines 118 to 127 and 139 to 147: the callbacks given to each worker's wrapper.\<close>

definition logicCallbacks :: "nat \<Rightarrow> channel \<Rightarrow> (string \<times> callback) list" where
  "logicCallbacks i ch =
     (case ch of Ok \<Rightarrow> callbacks Ok @ [(''ready'', ReadyLogic i)] | Err \<Rightarrow> callbacks Err)"

definition renderCallbacks :: "channel \<Rightarrow> (string \<times> callback) list" where
  "renderCallbacks ch =
     (case ch of Ok \<Rightarrow> callbacks Ok @ [(''ready'', ReadyRender)] | Err \<Rightarrow> callbacks Err)"

text \<open>\<^verbatim>\<open>resolve(worker)\<close>: settles a pending promise, and does nothing to a settled one.\<close>

definition resolve :: "promise \<Rightarrow> promise" where
  "resolve p = (if p = Pending then Fulfilled else p)"

text \<open>
  The tables that lines 118 to 127 and 139 to 147 pass to \<^verbatim>\<open>wrapForCallbacks\<close> are object
  literals, so indexing one by a kind finds the own property of that name and otherwise
  the member of that name of \<^verbatim>\<open>Object.prototype\<close>.
\<close>

definition objectPrototypeMembers :: "string list" where
  "objectPrototypeMembers =
     [''constructor'', ''__defineGetter__'', ''__defineSetter__'', ''hasOwnProperty'',
      ''__lookupGetter__'', ''__lookupSetter__'', ''isPrototypeOf'', ''propertyIsEnumerable'',
      ''toString'', ''valueOf'', ''__proto__'', ''toLocaleString'']"

definition lookup :: "(string \<times> callback) list \<Rightarrow> string \<Rightarrow> callback option" where
  "lookup table kind =
     (case map_of table kind of
        Some cb \<Rightarrow> Some cb
      | None \<Rightarrow> if kind \<in> set objectPrototypeMembers then Some (Inherited kind) else None)"

text \<open>
  Line 104 calls what it found as a plain function, so with \<^verbatim>\<open>this\<close> undefined. Of the
  inherited members \<^verbatim>\<open>Object\<close> (under \<^verbatim>\<open>constructor\<close>) and \<^verbatim>\<open>toString\<close> return;
  \<^verbatim>\<open>isPrototypeOf\<close> returns unless its first argument is an object; the others convert
  \<^verbatim>\<open>this\<close> to an object and throw TypeError, and \<^verbatim>\<open>__proto__\<close> yields an object that
  is not callable. None of them writes to the console or to the script's state.
\<close>

definition callInherited :: "string \<Rightarrow> val option list \<Rightarrow> outcome" where
  "callInherited kind args =
     (if kind = ''constructor'' \<or> kind = ''toString'' then Returned
      else if kind = ''isPrototypeOf''
              \<and> (case args of [] \<Rightarrow> True | a # _ \<Rightarrow> a \<noteq> Some VWorld) then Returned
      else Threw TypeError)"

fun runCallback :: "callback \<Rightarrow> val option list \<Rightarrow> host \<Rightarrow> outcome \<times> host" where
  "runCallback Pong args h =
     (Returned, consoleWrite (LogPong (case args of [] \<Rightarrow> None | a # _ \<Rightarrow> a)) h)"
| "runCallback (ReadyLogic i) args h =
     (Returned,
      postMessage (LogicWorker i) helloMsg
        (h\<lparr> logicPromises := (logicPromises h)[i := resolve (logicPromises h ! i)] \<rparr>))"
| "runCallback ReadyRender args h =
     (Returned, h\<lparr> renderPromise := resolve (renderPromise h) \<rparr>)"
| "runCallback ConsoleError args h = (Returned, consoleWrite (ErrorValues args) h)"
| "runCallback (Inherited kind) args h = (callInherited kind args, h)"

text \<open>
  Lines 94 to 108, the listener installed by \<^verbatim>\<open>wrapForCallbacks\<close>. When the table holds
  nothing under the kind, not even an inherited member, the fallback of the ok channel
  \<^emph>\<open>calls\<close> \<^verbatim>\<open>console.error\<close>, whose result \<^verbatim>\<open>undefined\<close> becomes the callback: calling it
  throws TypeError. What the listener logs and whether it throws is part of the result.
\<close>

definition onMessage ::
  "(channel \<Rightarrow> (string \<times> callback) list) \<Rightarrow> message \<Rightarrow> host \<Rightarrow> outcome \<times> host" where
  "onMessage cbs m h =
     (if merror m \<noteq> None \<and> mdata m \<noteq> None then
        (Returned, consoleWrite (ErrorMalformed (mtype m)) h)
      else
        let ch = (if merror m \<noteq> None then Err else Ok);
            args = (case mdata m of Some d \<Rightarrow> map Some d | None \<Rightarrow> [merror m])
        in case lookup (cbs ch) (mtype m) of
             Some cb \<Rightarrow> runCallback cb args h
           | None \<Rightarrow>
               (if merror m \<noteq> None then runCallback ConsoleError args h
                else (Threw TypeError, consoleWrite (ErrorUnknownEvent ch (mtype m)) h)))"

section \<open>The frame driver\<close>

text \<open>
  Lines 178 to 187, one invocation of \<^verbatim>\<open>advanceTick\<close>. The replacement value of the
  compare-and-exchange is the constant \<^verbatim>\<open>availableCores\<close>. The function reschedules
  itself on both branches.
\<close>

definition advanceTick :: "host \<Rightarrow> host" where
  "advanceTick h =
     (let w = world h;
          (old, cell) = compareExchange (workersRunning w) 0 (toInt32 (cores h));
          h1 = h\<lparr> world := w\<lparr> workersRunning := cell \<rparr> \<rparr>
      in (if old = 0 then
            let w1 = world h1;
                (_, t) = atomicsAdd (tick w1) 1;
                (_, ws) = atomicsNotify (waiting h1)
            in h1\<lparr> world := w1\<lparr> tick := t \<rparr>, waiting := ws \<rparr>
          else h1)\<lparr> frameLoop := True \<rparr>)"

section \<open>Startup\<close>

text \<open>
  Lines 152 to 155: the workers of the fulfilled promises, in the order of
  \<^verbatim>\<open>pendingLogicCores\<close>.
\<close>

definition fulfilledCores :: "promise list \<Rightarrow> nat list" where
  "fulfilledCores ps = filter (\<lambda>i. ps ! i = Fulfilled) [0..<length ps]"

definition allSettled :: "promise list \<Rightarrow> bool" where
  "allSettled ps = list_all (\<lambda>p. p \<noteq> Pending) ps"

text \<open>Lines 158 to 161.\<close>

definition sendStarts :: "nat list \<Rightarrow> host \<Rightarrow> host" where
  "sendStarts cs h =
     fold (\<lambda>(coreNumber, core). postMessage (LogicWorker core) (startMsg coreNumber (length cs)))
       (enumerate 0 cs) h"

text \<open>
  Lines 191 to 206, resumed when the render worker's promise is settled. The display
  binding of \<^verbatim>\<open>ui.mjs\<close> is outside this file; the model records that it was called.
\<close>

definition afterRenderSettled :: "host \<Rightarrow> host" where
  "afterRenderSettled h =
     (if renderPromise h = Rejected then h\<lparr> phase := Failed WorkerConstructionError \<rparr>
      else
        let h1 = postMessage RenderWorker helloMsg h;
            h2 = postMessage RenderWorker bindToDataMsg h1;
            h3 = consoleWrite InfoLoadedRender h2;
            h4 = h3\<lparr> uiBound := True \<rparr>;
            h5 = consoleWrite InfoBoundUI h4
        in h5\<lparr> phase := Bound \<rparr>)"

definition settleRender :: "host \<Rightarrow> host" where
  "settleRender h =
     (if phase h = AwaitRender \<and> renderPromise h \<noteq> Pending then afterRenderSettled h else h)"

text \<open>Lines 152 to 191, resumed when every promise of \<^verbatim>\<open>pendingLogicCores\<close> is settled.\<close>

definition afterLogicSettled :: "host \<Rightarrow> host" where
  "afterLogicSettled h =
     (let cs = fulfilledCores (logicPromises h);
          h1 = h\<lparr> logicCores := Some cs \<rparr>;
          h2 = sendStarts cs h1;
          h3 = consoleWrite (InfoLoadedLogic (length cs) (length (logicPromises h))) h2
      in if cs = [] then
           h3\<lparr> body := NoCoresDiagnostic,
               phase := Failed (Error ''Failed to load any simulation cores.'') \<rparr>
         else settleRender ((advanceTick h3)\<lparr> phase := AwaitRender \<rparr>))"

text \<open>
  The awaits: the script resumes only when the awaited promise is settled. No timer is
  registered anywhere in the file.
\<close>

definition settle :: "host \<Rightarrow> host" where
  "settle h =
     (if phase h = AwaitLogic then
        (if allSettled (logicPromises h) then afterLogicSettled h else h)
      else settleRender h)"

text \<open>
  Lines 18 to 152: the script from the constants to the first await. Constructing the
  array of promises throws when \<^verbatim>\<open>availableCores\<close> is not a valid array length; then
  no worker is constructed at all (the render worker's promise of the model stays
  pending, and no message can arrive).
\<close>

definition boot :: "env \<Rightarrow> host" where
  "boot e =
     (let n = availableCores e;
          h0 = \<lparr> cores = n, world = initWorld, waiting = [], logicPromises = [],
                 renderPromise = Pending, logicCores = None, outbox = [], console = [],
                 body = GamePage, phase = AwaitLogic, frameLoop = False, uiBound = False,
                 uncaught = [] \<rparr>
      in case arrayOfLength n of
           Inl err \<Rightarrow> h0\<lparr> phase := Failed err \<rparr>
         | Inr len \<Rightarrow>
             settle (h0\<lparr> logicPromises :=
                            map (\<lambda>i. if workerCtorThrows e i then Rejected else Pending) [0..<len],
                          renderPromise := (if renderCtorThrows e then Rejected else Pending) \<rparr>))"

text \<open>
  Lines 3 to 12: without shared memory the script replaces the page by a diagnostic and
  throws; nothing else of it runs.
\<close>

definition main :: "env \<Rightarrow> (page \<times> js_error) + host" where
  "main e =
     (if \<not> sharedArrayBuffer e
      then Inl (NoSharedMemoryDiagnostic, ReferenceError ''SharedArrayBuffer is not defined.'')
      else Inr (boot e))"

section \<open>Events\<close>

text \<open>
  After the first await the script only reacts: to a message from a logic worker, to a
  message from the render worker, and to a display refresh. The compute workers share the
  world's memory. A worker whose construction threw does not exist and sends nothing.
\<close>

datatype event =
    LogicMessage nat message
  | RenderMessage message
  | Refresh
  | WorkerDone nat

text \<open>
  Modelled from the spec: the compute worker's side of the barrier (\<^verbatim>\<open>logicWorker.mjs\<close>
  is not part of the sources). After its pass a worker decrements \<^verbatim>\<open>workersRunning\<close> by 1
  and blocks on the tick value.
\<close>

definition workerDone :: "nat \<Rightarrow> host \<Rightarrow> host" where
  "workerDone k h =
     h\<lparr> world := (world h)\<lparr> workersRunning := workersRunning (world h) - 1 \<rparr>,
        waiting := waiting h @ [k] \<rparr>"

definition deliver ::
  "(channel \<Rightarrow> (string \<times> callback) list) \<Rightarrow> message \<Rightarrow> host \<Rightarrow> host" where
  "deliver cbs m h =
     (case onMessage cbs m h of
        (Returned, h1) \<Rightarrow> settle h1
      | (Threw err, h1) \<Rightarrow> settle (h1\<lparr> uncaught := uncaught h1 @ [err] \<rparr>))"

fun step :: "event \<Rightarrow> host \<Rightarrow> host" where
  "step (LogicMessage i m) h =
     (if i < length (logicPromises h) \<and> logicPromises h ! i \<noteq> Rejected
      then deliver (logicCallbacks i) m h else h)"
| "step (RenderMessage m) h =
     (if renderPromise h \<noteq> Rejected then deliver renderCallbacks m h else h)"
| "step Refresh h = (if frameLoop h then advanceTick h else h)"
| "step (WorkerDone k) h = workerDone k h"

definition run :: "event list \<Rightarrow> host \<Rightarrow> host" where
  "run evs h = foldl (\<lambda>s ev. step ev s) h evs"

section \<open>Observations on a host state\<close>

text \<open>A worker's \<^verbatim>\<open>ready\<close> signal: a message of kind \<open>ready\<close> without an error.\<close>

definition isReady :: "message \<Rightarrow> bool" where
  "isReady m = (mtype m = ''ready'' \<and> merror m = None)"

definition readyMsg :: message where
  "readyMsg = \<lparr> mtype = ''ready'', mdata = None, merror = None \<rparr>"

definition pongMsg :: message where
  "pongMsg = \<lparr> mtype = ''pong'', mdata = Some [VNum 7], merror = None \<rparr>"

definition isStart :: "target \<times> message \<Rightarrow> bool" where
  "isStart tm = (mtype (snd tm) = ''start'')"

text \<open>The \<^verbatim>\<open>start\<close> messages of lines 158 to 161 for the list \<^verbatim>\<open>logicCores\<close>.\<close>

definition startList :: "nat list \<Rightarrow> (target \<times> message) list" where
  "startList cs = map (\<lambda>(k, c). (LogicWorker c, startMsg k (length cs))) (enumerate 0 cs)"

text \<open>Everything posted to one worker, in order.\<close>

definition messagesTo :: "target \<Rightarrow> host \<Rightarrow> message list" where
  "messagesTo t h = map snd (filter (\<lambda>tm. fst tm = t) (outbox h))"

text \<open>The greetings among them.\<close>

definition hellosTo :: "nat \<Rightarrow> host \<Rightarrow> message list" where
  "hellosTo i h = filter (\<lambda>m. mtype m = ''hello'') (messagesTo (LogicWorker i) h)"

section \<open>Observations on the events\<close>

text \<open>An event that is a \<^verbatim>\<open>ready\<close> signal of logic worker \<open>i\<close>.\<close>

definition readyFrom :: "nat \<Rightarrow> event \<Rightarrow> bool" where
  "readyFrom i ev = (case ev of LogicMessage j m \<Rightarrow> j = i \<and> isReady m | _ \<Rightarrow> False)"

definition signalled :: "event list \<Rightarrow> nat \<Rightarrow> bool" where
  "signalled evs i = list_ex (readyFrom i) evs"

text \<open>
  Of \<open>n\<close> requested workers, every one has settled: its construction threw, or it has
  signalled \<^verbatim>\<open>ready\<close>.
\<close>

definition settledBy :: "env \<Rightarrow> nat \<Rightarrow> event list \<Rightarrow> bool" where
  "settledBy e n evs = list_all (\<lambda>i. workerCtorThrows e i \<or> signalled evs i) [0..<n]"

text \<open>The workers that have reached READY: constructed, and \<^verbatim>\<open>ready\<close> signalled.\<close>

definition readyWorkers :: "env \<Rightarrow> nat \<Rightarrow> event list \<Rightarrow> nat list" where
  "readyWorkers e n evs = filter (\<lambda>i. \<not> workerCtorThrows e i \<and> signalled evs i) [0..<n]"

section \<open>Example environments\<close>

text \<open>Six hardware threads, so four logic workers are requested; the fourth cannot be constructed.\<close>

definition fourCoreEnv :: env where
  "fourCoreEnv =
     \<lparr> sharedArrayBuffer = True, coreOverride = None, hardwareConcurrency = Some 6,
       workerCtorThrows = (\<lambda>i. i = 3), renderCtorThrows = False \<rparr>"

text \<open>Four hardware threads: two logic workers, both constructed.\<close>

definition twoCoreEnv :: env where
  "twoCoreEnv =
     \<lparr> sharedArrayBuffer = True, coreOverride = None, hardwareConcurrency = Some 4,
       workerCtorThrows = (\<lambda>i. False), renderCtorThrows = False \<rparr>"

text \<open>Three hardware threads: one logic worker, constructed.\<close>

definition oneCoreEnv :: env where
  "oneCoreEnv =
     \<lparr> sharedArrayBuffer = True, coreOverride = None, hardwareConcurrency = Some 3,
       workerCtorThrows = (\<lambda>i. False), renderCtorThrows = False \<rparr>"

text \<open>The override key set to \<^verbatim>\<open>"0"\<close> on a platform with eight hardware threads.\<close>

definition zeroOverrideEnv :: env where
  "zeroOverrideEnv =
     \<lparr> sharedArrayBuffer = True, coreOverride = Some (Num 0), hardwareConcurrency = Some 8,
       workerCtorThrows = (\<lambda>i. False), renderCtorThrows = False \<rparr>"

text \<open>The override key set to \<^verbatim>\<open>"-1"\<close>.\<close>

definition negativeOverrideEnv :: env where
  "negativeOverrideEnv =
     \<lparr> sharedArrayBuffer = True, coreOverride = Some (Num (- 1)), hardwareConcurrency = Some 8,
       workerCtorThrows = (\<lambda>i. False), renderCtorThrows = False \<rparr>"

text \<open>Four hardware threads, and no logic worker can be constructed.\<close>

definition noWorkerEnv :: env where
  "noWorkerEnv =
     \<lparr> sharedArrayBuffer = True, coreOverride = None, hardwareConcurrency = Some 4,
       workerCtorThrows = (\<lambda>i. True), renderCtorThrows = False \<rparr>"

text \<open>The events of one tick of a single worker: it finishes its pass, then the display refreshes.\<close>

definition oneTick :: "event list" where
  "oneTick = [WorkerDone 0, Refresh]"

text \<open>One logic worker, started: the state after its \<^verbatim>\<open>ready\<close> has been handled.\<close>

definition runningHost :: host where
  "runningHost = run [LogicMessage 0 readyMsg] (boot oneCoreEnv)"

section \<open>Invariants of the startup protocol\<close>

text \<open>Two states that differ at most in what was written to the console and reported as uncaught.\<close>

definition sameButLogs :: "host \<Rightarrow> host \<Rightarrow> bool" where
  "sameButLogs h h' = (\<exists>c u. h' = h\<lparr> console := c, uncaught := u \<rparr>)"

text \<open>
  A worker that is counted as ready was greeted first; a worker that is not has been sent
  nothing.
\<close>

definition helloFirst :: "host \<Rightarrow> bool" where
  "helloFirst h =
     (\<forall>i < length (logicPromises h).
        (logicPromises h ! i = Fulfilled \<longrightarrow>
           (\<exists>rest. messagesTo (LogicWorker i) h = helloMsg # rest))
        \<and> (logicPromises h ! i \<noteq> Fulfilled \<longrightarrow> messagesTo (LogicWorker i) h = []))"

text \<open>
  The \<^verbatim>\<open>start\<close> messages sent so far: none while \<^verbatim>\<open>logicCores\<close> is unbound, and exactly
  those of lines 158 to 161 afterwards.
\<close>

definition startsSent :: "host \<Rightarrow> bool" where
  "startsSent h =
     (case logicCores h of
        None \<Rightarrow>
          filter isStart (outbox h) = []
          \<and> (phase h = AwaitLogic \<or> phase h = Failed RangeError \<and> logicPromises h = [])
      | Some cs \<Rightarrow>
          phase h \<noteq> AwaitLogic \<and> allSettled (logicPromises h)
          \<and> cs = fulfilledCores (logicPromises h)
          \<and> filter isStart (outbox h) = startList cs)"

text \<open>What has happened to the page, the frame loop and the display binding.\<close>

definition startupOutcome :: "host \<Rightarrow> bool" where
  "startupOutcome h =
     (case logicCores h of
        None \<Rightarrow>
          \<not> frameLoop h \<and> \<not> uiBound h \<and> body h = GamePage \<and> tick (world h) = 0
          \<and> messagesTo RenderWorker h = []
      | Some cs \<Rightarrow>
          if cs = [] then
            phase h = Failed (Error ''Failed to load any simulation cores.'')
            \<and> body h = NoCoresDiagnostic \<and> \<not> frameLoop h \<and> \<not> uiBound h
            \<and> tick (world h) = 0 \<and> messagesTo RenderWorker h = []
          else
            frameLoop h \<and> body h = GamePage
            \<and> (phase h = AwaitRender \<or> phase h = Bound
                \<or> phase h = Failed WorkerConstructionError))"

definition coreInv :: "host \<Rightarrow> bool" where
  "coreInv h = (helloFirst h \<and> startsSent h \<and> startupOutcome h)"

text \<open>Between events the script sits at the first await only while a promise is pending.\<close>

definition hostInv :: "host \<Rightarrow> bool" where
  "hostInv h = (coreInv h \<and> (phase h = AwaitLogic \<longrightarrow> \<not> allSettled (logicPromises h)))"

section \<open>Basic facts\<close>

lemma fold_postMessage:
  "fold (\<lambda>(k, c). postMessage (f k c) (g k c)) xs h
     = h\<lparr> outbox := outbox h @ map (\<lambda>(k, c). (f k c, g k c)) xs \<rparr>"
  by (induction xs arbitrary: h) (auto simp: postMessage_def)

lemma sendStarts_eq: "sendStarts cs h = h\<lparr> outbox := outbox h @ startList cs \<rparr>"
  unfolding sendStarts_def startList_def by (rule fold_postMessage)

lemma initWorld_fields:
  "tick initWorld = 0" "workersRunning initWorld = 0"
  "wrappingBehaviour initWorld = [1, 1, 1, 1]"
  "p_type initWorld = replicate totalPixels 0"
  by (simp_all add: initWorld_def allocWorld_def newTypedArray_def fill_def numeral_eq_Suc)

lemma fulfilledCores_fresh:
  "fulfilledCores (map (\<lambda>i. if c i then Rejected else Pending) [0..<n]) = []"
  by (simp add: fulfilledCores_def filter_empty_conv)

lemma startList_Nil: "startList [] = []"
  by (simp add: startList_def enumerate_eq_zip)

lemma advanceTick_eq:
  "advanceTick h =
     (if workersRunning (world h) = 0
      then h\<lparr> world := (world h)\<lparr> workersRunning := toInt32 (cores h), tick := tick (world h) + 1 \<rparr>,
              waiting := [], frameLoop := True \<rparr>
      else h\<lparr> frameLoop := True \<rparr>)"
  by (simp add: advanceTick_def compareExchange_def atomicsAdd_def atomicsNotify_def Let_def)

lemma onMessage_logic:
  "onMessage (logicCallbacks i) m h =
     (if merror m \<noteq> None \<and> mdata m \<noteq> None then
        (Returned, consoleWrite (ErrorMalformed (mtype m)) h)
      else if merror m \<noteq> None then
        (if mtype m \<in> set objectPrototypeMembers
         then (callInherited (mtype m) [merror m], h)
         else (Returned, consoleWrite (ErrorValues [merror m]) h))
      else if mtype m = ''ready'' then
        (Returned, postMessage (LogicWorker i) helloMsg
           (h\<lparr> logicPromises := (logicPromises h)[i := resolve (logicPromises h ! i)] \<rparr>))
      else if mtype m = ''hello'' \<or> mtype m = ''pong'' then
        (Returned, consoleWrite
           (LogPong (case mdata m of Some (a # _) \<Rightarrow> Some a | _ \<Rightarrow> None)) h)
      else if mtype m \<in> set objectPrototypeMembers then
        (callInherited (mtype m) (case mdata m of Some d \<Rightarrow> map Some d | None \<Rightarrow> [None]), h)
      else (Threw TypeError, consoleWrite (ErrorUnknownEvent Ok (mtype m)) h))"
  by (auto simp: onMessage_def lookup_def logicCallbacks_def callbacks_def Let_def
      split: option.splits list.splits)

lemma availableCores_oneCoreEnv: "availableCores oneCoreEnv = Num 1"
  by (simp add: availableCores_def oneCoreEnv_def unaryPlus_def reportedConcurrency_def
      reservedCores_def)

lemma arrayOfLength_small: "arrayOfLength (Num (of_nat n)) = (if n < 2 ^ 32 then Inr n else Inl RangeError)"
  by (simp add: arrayOfLength_def)

lemma boot_oneCoreEnv:
  "boot oneCoreEnv =
     \<lparr> cores = Num 1, world = initWorld, waiting = [], logicPromises = [Pending],
       renderPromise = Pending, logicCores = None, outbox = [], console = [],
       body = GamePage, phase = AwaitLogic, frameLoop = False, uiBound = False,
       uncaught = [] \<rparr>"
  using arrayOfLength_small[of 1]
  by (simp add: boot_def availableCores_oneCoreEnv Let_def settle_def allSettled_def)
     (simp add: oneCoreEnv_def)

lemma runningHost_eq:
  "runningHost =
     \<lparr> cores = Num 1,
       world = initWorld\<lparr> workersRunning := 1, tick := 1 \<rparr>,
       waiting = [], logicPromises = [Fulfilled],
       renderPromise = Pending, logicCores = Some [0],
       outbox = [(LogicWorker 0, helloMsg), (LogicWorker 0, startMsg 0 1)],
       console = [InfoLoadedLogic 1 1],
       body = GamePage, phase = AwaitRender, frameLoop = True, uiBound = False,
       uncaught = [] \<rparr>"
  by (simp add: runningHost_def run_def boot_oneCoreEnv deliver_def onMessage_logic readyMsg_def
      postMessage_def resolve_def settle_def allSettled_def afterLogicSettled_def Let_def
      fulfilledCores_def sendStarts_eq startList_def enumerate_eq_zip consoleWrite_def
      advanceTick_eq initWorld_fields toInt32_def truncToInt_def settleRender_def)

lemma onMessage_render:
  "onMessage renderCallbacks m h =
     (if merror m \<noteq> None \<and> mdata m \<noteq> None then
        (Returned, consoleWrite (ErrorMalformed (mtype m)) h)
      else if merror m \<noteq> None then
        (if mtype m \<in> set objectPrototypeMembers
         then (callInherited (mtype m) [merror m], h)
         else (Returned, consoleWrite (ErrorValues [merror m]) h))
      else if mtype m = ''ready'' then
        (Returned, h\<lparr> renderPromise := resolve (renderPromise h) \<rparr>)
      else if mtype m = ''hello'' \<or> mtype m = ''pong'' then
        (Returned, consoleWrite
           (LogPong (case mdata m of Some (a # _) \<Rightarrow> Some a | _ \<Rightarrow> None)) h)
      else if mtype m \<in> set objectPrototypeMembers then
        (callInherited (mtype m) (case mdata m of Some d \<Rightarrow> map Some d | None \<Rightarrow> [None]), h)
      else (Threw TypeError, consoleWrite (ErrorUnknownEvent Ok (mtype m)) h))"
  by (auto simp: onMessage_def lookup_def renderCallbacks_def callbacks_def Let_def
      split: option.splits list.splits)

lemma host_console_self: "\<exists>c. h = h\<lparr> console := c \<rparr>"
  by (rule exI[of _ "console h"]) simp

text \<open>A message with both a payload and an error is logged and dropped, whatever its kind.\<close>

lemma onMessage_malformed:
  "mdata m \<noteq> None \<Longrightarrow> merror m \<noteq> None \<Longrightarrow>
   onMessage cbs m h = (Returned, consoleWrite (ErrorMalformed (mtype m)) h)"
  by (simp add: onMessage_def)

text \<open>
  On the error channel no callback is registered: the error is logged and dropped, unless
  the kind names an inherited member.
\<close>

lemma onMessage_error:
  "mdata m = None \<Longrightarrow> merror m = Some err \<Longrightarrow> mtype m \<notin> set objectPrototypeMembers \<Longrightarrow>
   onMessage (logicCallbacks i) m h = (Returned, consoleWrite (ErrorValues [Some err]) h)"
  by (simp add: onMessage_logic)

lemma run_snoc: "run (evs @ [ev]) h = step ev (run evs h)"
  by (simp add: run_def)

lemma run_Nil: "run [] h = h"
  by (simp add: run_def)

lemma run_Cons: "run (ev # evs) h = run evs (step ev h)"
  by (simp add: run_def)

lemma run_append: "run (xs @ ys) h = run ys (run xs h)"
  by (simp add: run_def)

subsection \<open>The awaits, case by case\<close>

lemma settleRender_eq:
  "settleRender h =
     (if phase h = AwaitRender \<and> renderPromise h \<noteq> Pending then
        (if renderPromise h = Rejected then h\<lparr> phase := Failed WorkerConstructionError \<rparr>
         else h\<lparr> outbox := outbox h @ [(RenderWorker, helloMsg), (RenderWorker, bindToDataMsg)],
                 console := console h @ [InfoLoadedRender, InfoBoundUI],
                 uiBound := True, phase := Bound \<rparr>)
      else h)"
  by (simp add: settleRender_def afterRenderSettled_def postMessage_def consoleWrite_def Let_def)

lemma settle_waiting:
  "phase h = AwaitLogic \<Longrightarrow> \<not> allSettled (logicPromises h) \<Longrightarrow> settle h = h"
  by (simp add: settle_def)

lemma settle_fatal:
  "phase h = AwaitLogic \<Longrightarrow> allSettled (logicPromises h) \<Longrightarrow>
   fulfilledCores (logicPromises h) = [] \<Longrightarrow>
   settle h = h\<lparr> logicCores := Some [],
                 console := console h @ [InfoLoadedLogic 0 (length (logicPromises h))],
                 body := NoCoresDiagnostic,
                 phase := Failed (Error ''Failed to load any simulation cores.'') \<rparr>"
  by (simp add: settle_def afterLogicSettled_def Let_def sendStarts_eq startList_Nil consoleWrite_def)

lemma settle_proceed:
  "phase h = AwaitLogic \<Longrightarrow> allSettled (logicPromises h) \<Longrightarrow>
   fulfilledCores (logicPromises h) \<noteq> [] \<Longrightarrow>
   settle h =
     settleRender
       ((advanceTick
          (h\<lparr> logicCores := Some (fulfilledCores (logicPromises h)),
              outbox := outbox h @ startList (fulfilledCores (logicPromises h)),
              console := console h @
                [InfoLoadedLogic (length (fulfilledCores (logicPromises h)))
                   (length (logicPromises h))] \<rparr>))
        \<lparr> phase := AwaitRender \<rparr>)"
  by (simp add: settle_def afterLogicSettled_def Let_def sendStarts_eq consoleWrite_def)

lemma settle_later: "phase h \<noteq> AwaitLogic \<Longrightarrow> settle h = settleRender h"
  by (simp add: settle_def)

lemma settleRender_frame:
  "cores (settleRender h) = cores h" "world (settleRender h) = world h"
  "logicPromises (settleRender h) = logicPromises h"
  "logicCores (settleRender h) = logicCores h"
  "frameLoop (settleRender h) = frameLoop h" "body (settleRender h) = body h"
  "waiting (settleRender h) = waiting h"
  by (simp_all add: settleRender_eq)

lemma advanceTick_frame:
  "cores (advanceTick h) = cores h"
  "logicPromises (advanceTick h) = logicPromises h"
  "renderPromise (advanceTick h) = renderPromise h"
  "logicCores (advanceTick h) = logicCores h"
  "outbox (advanceTick h) = outbox h" "body (advanceTick h) = body h"
  "phase (advanceTick h) = phase h" "uiBound (advanceTick h) = uiBound h"
  "frameLoop (advanceTick h) = True"
  "console (advanceTick h) = console h"
  by (simp_all add: advanceTick_eq)

lemma advanceTick_world:
  "world (advanceTick h) = world h
   \<or> (workersRunning (world h) = 0
      \<and> world (advanceTick h)
          = (world h)\<lparr> workersRunning := toInt32 (cores h), tick := tick (world h) + 1 \<rparr>)"
  by (simp add: advanceTick_eq)

lemma settle_cases:
  obtains (later) "phase h \<noteq> AwaitLogic"
  | (waiting) "phase h = AwaitLogic" "\<not> allSettled (logicPromises h)"
  | (fatal) "phase h = AwaitLogic" "allSettled (logicPromises h)"
      "fulfilledCores (logicPromises h) = []"
  | (proceed) "phase h = AwaitLogic" "allSettled (logicPromises h)"
      "fulfilledCores (logicPromises h) \<noteq> []"
  by blast

lemma settle_cores: "cores (settle h) = cores h"
  by (cases h rule: settle_cases)
     (simp_all add: settle_later settle_waiting settle_fatal settle_proceed
        settleRender_frame advanceTick_frame)

lemma settle_logicPromises: "logicPromises (settle h) = logicPromises h"
  by (cases h rule: settle_cases)
     (simp_all add: settle_later settle_waiting settle_fatal settle_proceed
        settleRender_frame advanceTick_frame)

lemma settle_world:
  "world (settle h) = world h
   \<or> (workersRunning (world h) = 0
      \<and> world (settle h)
          = (world h)\<lparr> workersRunning := toInt32 (cores h), tick := tick (world h) + 1 \<rparr>)"
proof (cases h rule: settle_cases)
  case proceed
    let ?h1 = "h\<lparr> logicCores := Some (fulfilledCores (logicPromises h)),
              outbox := outbox h @ startList (fulfilledCores (logicPromises h)),
              console := console h @
                [InfoLoadedLogic (length (fulfilledCores (logicPromises h)))
                   (length (logicPromises h))] \<rparr>"
    have "world (settle h) = world (advanceTick ?h1)"
      using proceed by (simp add: settle_proceed settleRender_frame)
    with advanceTick_world[of ?h1] show ?thesis by simp
qed (simp_all add: settle_later settle_waiting settle_fatal settleRender_frame)

subsection \<open>Message delivery\<close>

lemma deliver_logic_ready:
  "isReady m \<Longrightarrow>
   deliver (logicCallbacks i) m h =
     settle (h\<lparr> logicPromises := (logicPromises h)[i := resolve (logicPromises h ! i)],
               outbox := outbox h @ [(LogicWorker i, helloMsg)] \<rparr>)"
  by (simp add: deliver_def onMessage_logic isReady_def postMessage_def)

lemma deliver_logic_other:
  "\<not> isReady m \<Longrightarrow> \<exists>h'. sameButLogs h h' \<and> deliver (logicCallbacks i) m h = settle h'"
proof -
  assume nr: "\<not> isReady m"
  obtain out h1 where om: "onMessage (logicCallbacks i) m h = (out, h1)"
    by (cases "onMessage (logicCallbacks i) m h")
  have "\<exists>c. h1 = h\<lparr> console := c \<rparr>"
    using om nr
    by (auto simp: onMessage_logic isReady_def consoleWrite_def host_console_self split: if_splits)
  then obtain c where h1: "h1 = h\<lparr> console := c \<rparr>" ..
  show ?thesis
  proof (cases out)
    case Returned
    have "sameButLogs h h1" unfolding sameButLogs_def h1
      by (rule exI[of _ c], rule exI[of _ "uncaught h"]) simp
    then show ?thesis using om Returned by (auto simp: deliver_def)
  next
    case (Threw err)
    have "sameButLogs h (h1\<lparr> uncaught := uncaught h1 @ [err] \<rparr>)" unfolding sameButLogs_def h1
      by (rule exI[of _ c], rule exI[of _ "uncaught h @ [err]"]) simp
    then show ?thesis using om Threw by (auto simp: deliver_def)
  qed
qed

lemma deliver_render_ready:
  "isReady m \<Longrightarrow>
   deliver renderCallbacks m h = settle (h\<lparr> renderPromise := resolve (renderPromise h) \<rparr>)"
  by (simp add: deliver_def onMessage_render isReady_def)

lemma deliver_render_other:
  "\<not> isReady m \<Longrightarrow> \<exists>h'. sameButLogs h h' \<and> deliver renderCallbacks m h = settle h'"
proof -
  assume nr: "\<not> isReady m"
  obtain out h1 where om: "onMessage renderCallbacks m h = (out, h1)"
    by (cases "onMessage renderCallbacks m h")
  have "\<exists>c. h1 = h\<lparr> console := c \<rparr>"
    using om nr
    by (auto simp: onMessage_render isReady_def consoleWrite_def host_console_self split: if_splits)
  then obtain c where h1: "h1 = h\<lparr> console := c \<rparr>" ..
  show ?thesis
  proof (cases out)
    case Returned
    have "sameButLogs h h1" unfolding sameButLogs_def h1
      by (rule exI[of _ c], rule exI[of _ "uncaught h"]) simp
    then show ?thesis using om Returned by (auto simp: deliver_def)
  next
    case (Threw err)
    have "sameButLogs h (h1\<lparr> uncaught := uncaught h1 @ [err] \<rparr>)" unfolding sameButLogs_def h1
      by (rule exI[of _ c], rule exI[of _ "uncaught h @ [err]"]) simp
    then show ?thesis using om Threw by (auto simp: deliver_def)
  qed
qed

lemma sameButLogs_fields:
  assumes "sameButLogs h h'"
  shows "cores h' = cores h" "world h' = world h" "waiting h' = waiting h"
    "logicPromises h' = logicPromises h" "renderPromise h' = renderPromise h"
    "logicCores h' = logicCores h" "outbox h' = outbox h" "body h' = body h"
    "phase h' = phase h" "frameLoop h' = frameLoop h" "uiBound h' = uiBound h"
  using assms by (auto simp: sameButLogs_def)

subsection \<open>Each step keeps the core count and moves the tick by at most one\<close>

lemma step_cores: "cores (step ev h) = cores h"
proof (cases ev)
  case (LogicMessage i m)
  show ?thesis
  proof (cases "isReady m")
    case True
    then show ?thesis using LogicMessage by (simp add: deliver_logic_ready settle_cores)
  next
    case False
    from deliver_logic_other[OF this, of h i] obtain h' where
      "sameButLogs h h'" "deliver (logicCallbacks i) m h = settle h'" by blast
    then show ?thesis using LogicMessage by (simp add: settle_cores sameButLogs_fields)
  qed
next
  case (RenderMessage m)
  show ?thesis
  proof (cases "isReady m")
    case True
    then show ?thesis using RenderMessage by (simp add: deliver_render_ready settle_cores)
  next
    case False
    from deliver_render_other[OF this, of h] obtain h' where
      "sameButLogs h h'" "deliver renderCallbacks m h = settle h'" by blast
    then show ?thesis using RenderMessage by (simp add: settle_cores sameButLogs_fields)
  qed
next
  case Refresh
  then show ?thesis by (simp add: advanceTick_frame)
next
  case (WorkerDone k)
  then show ?thesis by (simp add: workerDone_def)
qed

lemma step_tick:
  "tick (world (step ev h)) = tick (world h)
   \<or> (workersRunning (world h) = 0
      \<and> tick (world (step ev h)) = tick (world h) + 1
      \<and> workersRunning (world (step ev h)) = toInt32 (cores h))"
proof (cases ev)
  case (LogicMessage i m)
  show ?thesis
  proof (cases "isReady m")
    case True
    let ?h1 = "h\<lparr> logicPromises := (logicPromises h)[i := resolve (logicPromises h ! i)],
               outbox := outbox h @ [(LogicWorker i, helloMsg)] \<rparr>"
    from settle_world[of ?h1] show ?thesis
      using LogicMessage True by (auto simp: deliver_logic_ready)
  next
    case False
    from deliver_logic_other[OF this, of h i] obtain h' where
      h': "sameButLogs h h'" "deliver (logicCallbacks i) m h = settle h'" by blast
    from settle_world[of h'] show ?thesis
      using LogicMessage h' by (auto simp: sameButLogs_fields)
  qed
next
  case (RenderMessage m)
  show ?thesis
  proof (cases "isReady m")
    case True
    from settle_world[of "h\<lparr> renderPromise := resolve (renderPromise h) \<rparr>"] show ?thesis
      using RenderMessage True by (auto simp: deliver_render_ready)
  next
    case False
    from deliver_render_other[OF this, of h] obtain h' where
      h': "sameButLogs h h'" "deliver renderCallbacks m h = settle h'" by blast
    from settle_world[of h'] show ?thesis
      using RenderMessage h' by (auto simp: sameButLogs_fields)
  qed
next
  case Refresh
  from advanceTick_world[of h] show ?thesis using Refresh by auto
next
  case (WorkerDone k)
  then show ?thesis by (simp add: workerDone_def)
qed

lemma run_cores: "cores (run evs h) = cores h"
  by (induction evs rule: rev_induct) (simp_all add: run_snoc run_Nil step_cores)

lemma availableCores_default:
  "coreOverride e = None \<Longrightarrow> hardwareConcurrency e = Some h \<Longrightarrow> 0 < h \<Longrightarrow>
   availableCores e = Num (of_int (max 1 (int h - 2)))"
  by (simp add: availableCores_def unaryPlus_def reportedConcurrency_def reservedCores_def)

lemma boot_pending:
  assumes "arrayOfLength (availableCores e) = Inr n" "\<exists>i<n. \<not> workerCtorThrows e i"
  shows "boot e =
     \<lparr> cores = availableCores e, world = initWorld, waiting = [],
       logicPromises = map (\<lambda>i. if workerCtorThrows e i then Rejected else Pending) [0..<n],
       renderPromise = (if renderCtorThrows e then Rejected else Pending),
       logicCores = None, outbox = [], console = [],
       body = GamePage, phase = AwaitLogic, frameLoop = False, uiBound = False,
       uncaught = [] \<rparr>"
proof -
  have "\<not> allSettled (map (\<lambda>i. if workerCtorThrows e i then Rejected else Pending) [0..<n])"
    using assms(2) by (auto simp: allSettled_def list_all_iff)
  then show ?thesis using assms(1) by (simp add: boot_def Let_def settle_def)
qed

lemma boot_rangeError:
  assumes "arrayOfLength (availableCores e) = Inl err"
  shows "boot e =
     \<lparr> cores = availableCores e, world = initWorld, waiting = [],
       logicPromises = [], renderPromise = Pending,
       logicCores = None, outbox = [], console = [],
       body = GamePage, phase = Failed err, frameLoop = False, uiBound = False,
       uncaught = [] \<rparr>"
  using assms by (simp add: boot_def Let_def)

lemma boot_allThrow:
  assumes "arrayOfLength (availableCores e) = Inr n" "\<forall>i<n. workerCtorThrows e i"
  shows "boot e =
     \<lparr> cores = availableCores e, world = initWorld, waiting = [],
       logicPromises = replicate n Rejected,
       renderPromise = (if renderCtorThrows e then Rejected else Pending),
       logicCores = Some [], outbox = [], console = [InfoLoadedLogic 0 n],
       body = NoCoresDiagnostic, phase = Failed (Error ''Failed to load any simulation cores.''),
       frameLoop = False, uiBound = False, uncaught = [] \<rparr>"
proof -
  have eq: "map (\<lambda>i. if workerCtorThrows e i then Rejected else Pending) [0..<n] = replicate n Rejected"
    using assms(2) by (auto simp: list_eq_iff_nth_eq)
  have "allSettled (replicate n Rejected)" by (simp add: allSettled_def list_all_iff)
  moreover have "fulfilledCores (replicate n Rejected) = []"
    by (simp add: fulfilledCores_def filter_empty_conv)
  ultimately show ?thesis using assms(1)
    by (simp add: boot_def Let_def eq settle_fatal)
qed

lemma boot_cases:
  obtains (rangeError) err where "arrayOfLength (availableCores e) = Inl err"
  | (pending) n where "arrayOfLength (availableCores e) = Inr n" "\<exists>i<n. \<not> workerCtorThrows e i"
  | (allThrow) n where "arrayOfLength (availableCores e) = Inr n" "\<forall>i<n. workerCtorThrows e i"
  by (cases "arrayOfLength (availableCores e)") blast+

lemma boot_world: "world (boot e) = initWorld"
  by (cases e rule: boot_cases) (simp_all add: boot_rangeError boot_pending boot_allThrow)

lemma boot_cores: "cores (boot e) = availableCores e"
  by (cases e rule: boot_cases) (simp_all add: boot_rangeError boot_pending boot_allThrow)

lemma arrayOfLength_negative: "r < 0 \<Longrightarrow> arrayOfLength (Num r) = Inl RangeError"
  by (simp add: arrayOfLength_def)

lemma availableCores_fourCoreEnv: "availableCores fourCoreEnv = Num 4"
  by (simp add: availableCores_def fourCoreEnv_def unaryPlus_def reportedConcurrency_def
      reservedCores_def)

lemma boot_fourCoreEnv:
  "boot fourCoreEnv =
     \<lparr> cores = Num 4, world = initWorld, waiting = [],
       logicPromises = [Pending, Pending, Pending, Rejected],
       renderPromise = Pending, logicCores = None, outbox = [], console = [],
       body = GamePage, phase = AwaitLogic, frameLoop = False, uiBound = False,
       uncaught = [] \<rparr>"
proof -
  have a: "arrayOfLength (availableCores fourCoreEnv) = Inr 4"
    using arrayOfLength_small[of 4] by (simp add: availableCores_fourCoreEnv)
  have b: "\<exists>i<4. \<not> workerCtorThrows fourCoreEnv i"
    by (rule exI[of _ 0]) (simp add: fourCoreEnv_def)
  have c: "[0..<4] = [0, 1, 2, 3]" by (simp add: upt_rec)
  show ?thesis
    by (simp add: boot_pending[OF a b] availableCores_fourCoreEnv c) (simp add: fourCoreEnv_def)
qed

lemmas eval_step = deliver_def onMessage_logic onMessage_render readyMsg_def pongMsg_def
  postMessage_def resolve_def settle_def allSettled_def afterLogicSettled_def Let_def
  fulfilledCores_def sendStarts_eq startList_def enumerate_eq_zip consoleWrite_def
  advanceTick_eq initWorld_fields toInt32_def truncToInt_def settleRender_def
  afterRenderSettled_def workerDone_def upt_rec

subsection \<open>Start messages\<close>

lemma isStart_simps:
  "\<not> isStart (t, helloMsg)" "\<not> isStart (t, bindToDataMsg)" "isStart (t, startMsg k n)"
  by (simp_all add: isStart_def helloMsg_def bindToDataMsg_def startMsg_def)

lemma filter_isStart_startList: "filter isStart (startList cs) = startList cs"
  by (auto simp: startList_def isStart_simps filter_id_conv)

lemma messagesTo_outbox_append:
  "messagesTo t (h\<lparr> outbox := outbox h @ xs \<rparr>)
     = messagesTo t h @ map snd (filter (\<lambda>tm. fst tm = t) xs)"
  by (simp add: messagesTo_def)

lemma set_fulfilledCores:
  "set (fulfilledCores ps) = {i. i < length ps \<and> ps ! i = Fulfilled}"
  by (auto simp: fulfilledCores_def)

lemma distinct_fulfilledCores: "distinct (fulfilledCores ps)"
  by (simp add: fulfilledCores_def)

lemma startList_targets:
  "(t, m) \<in> set (startList cs) \<Longrightarrow> \<exists>c \<in> set cs. t = LogicWorker c"
  by (auto simp: startList_def enumerate_eq_zip dest: set_zip_rightD)

lemma startList_other:
  "i \<notin> set cs \<Longrightarrow> filter (\<lambda>tm. fst tm = LogicWorker i) (startList cs) = []"
  by (auto simp: filter_empty_conv dest: startList_targets)

lemma startList_render: "filter (\<lambda>tm. fst tm = RenderWorker) (startList cs) = []"
  by (auto simp: filter_empty_conv dest: startList_targets)

lemma starts_of_one_core:
  "distinct cs \<Longrightarrow> i \<in> set cs \<Longrightarrow>
   \<exists>k < length cs. cs ! k = i
     \<and> filter (\<lambda>tm. fst tm = LogicWorker i)
          (map (\<lambda>(j, c). (LogicWorker c, startMsg j n)) (enumerate a cs))
        = [(LogicWorker i, startMsg (a + k) n)]"
proof (induction cs arbitrary: a)
  case Nil
  then show ?case by simp
next
  case (Cons c cs)
  show ?case
  proof (cases "c = i")
    case True
    then have "i \<notin> set cs" using Cons.prems by simp
    then have "filter (\<lambda>tm. fst tm = LogicWorker i)
          (map (\<lambda>(j, c). (LogicWorker c, startMsg j n)) (enumerate (Suc a) cs)) = []"
      by (auto simp: filter_empty_conv enumerate_eq_zip dest: set_zip_rightD)
    then show ?thesis using True by (intro exI[of _ 0]) simp
  next
    case False
    then have "distinct cs" "i \<in> set cs" using Cons.prems by auto
    from Cons.IH[OF this, of "Suc a"] obtain k where
      k: "k < length cs" "cs ! k = i"
      "filter (\<lambda>tm. fst tm = LogicWorker i)
          (map (\<lambda>(j, c). (LogicWorker c, startMsg j n)) (enumerate (Suc a) cs))
        = [(LogicWorker i, startMsg (Suc a + k) n)]" by blast
    then show ?thesis using False by (intro exI[of _ "Suc k"]) simp
  qed
qed

lemma startList_one_core:
  "distinct cs \<Longrightarrow> i \<in> set cs \<Longrightarrow>
   \<exists>k < length cs. cs ! k = i
     \<and> filter (\<lambda>tm. fst tm = LogicWorker i) (startList cs)
        = [(LogicWorker i, startMsg k (length cs))]"
  using starts_of_one_core[of cs i "length cs" 0] by (simp add: startList_def)

subsection \<open>The invariants do not depend on the logs\<close>

lemma messagesTo_logs: "sameButLogs h h' \<Longrightarrow> messagesTo t h' = messagesTo t h"
  by (simp add: messagesTo_def sameButLogs_fields)

lemma startsSent_iff:
  "startsSent h \<longleftrightarrow>
     (logicCores h = None \<longrightarrow>
        filter isStart (outbox h) = []
        \<and> (phase h = AwaitLogic \<or> phase h = Failed RangeError \<and> logicPromises h = []))
     \<and> (\<forall>cs. logicCores h = Some cs \<longrightarrow>
          phase h \<noteq> AwaitLogic \<and> allSettled (logicPromises h)
          \<and> cs = fulfilledCores (logicPromises h)
          \<and> filter isStart (outbox h) = startList cs)"
  by (simp add: startsSent_def split: option.splits)

lemma startupOutcome_iff:
  "startupOutcome h \<longleftrightarrow>
     (logicCores h = None \<longrightarrow>
        \<not> frameLoop h \<and> \<not> uiBound h \<and> body h = GamePage \<and> tick (world h) = 0
        \<and> messagesTo RenderWorker h = [])
     \<and> (logicCores h = Some [] \<longrightarrow>
          phase h = Failed (Error ''Failed to load any simulation cores.'')
          \<and> body h = NoCoresDiagnostic \<and> \<not> frameLoop h \<and> \<not> uiBound h
          \<and> tick (world h) = 0 \<and> messagesTo RenderWorker h = [])
     \<and> (\<forall>cs. logicCores h = Some cs \<and> cs \<noteq> [] \<longrightarrow>
          frameLoop h \<and> body h = GamePage
          \<and> (phase h = AwaitRender \<or> phase h = Bound
              \<or> phase h = Failed WorkerConstructionError))"
  by (auto simp: startupOutcome_def split: option.splits)

lemmas coreInv_unfold = coreInv_def helloFirst_def startsSent_iff startupOutcome_iff

lemma coreInv_logs:
  assumes "sameButLogs h h'" "coreInv h"
  shows "coreInv h'"
proof -
  from assms(1) obtain c u where "h' = h\<lparr> console := c, uncaught := u \<rparr>"
    unfolding sameButLogs_def by blast
  then show ?thesis using assms(2)
    by (simp add: coreInv_unfold messagesTo_def)
qed

subsection \<open>The invariants across the awaits\<close>

lemma coreInv_settleRender:
  assumes "coreInv h" "phase h \<noteq> AwaitLogic"
  shows "coreInv (settleRender h)" "phase (settleRender h) \<noteq> AwaitLogic"
proof -
  show "phase (settleRender h) \<noteq> AwaitLogic"
    using assms(2) by (simp add: settleRender_eq)
  show "coreInv (settleRender h)"
  proof (cases "phase h = AwaitRender \<and> renderPromise h \<noteq> Pending")
    case False
    then show ?thesis using assms(1) by (auto simp: settleRender_eq)
  next
    case True
    then obtain cs where cs: "logicCores h = Some cs" "cs \<noteq> []"
      using assms(1) by (cases "logicCores h") (auto simp: coreInv_unfold)
    show ?thesis
    proof (cases "renderPromise h = Rejected")
      case True
      then show ?thesis using assms(1) \<open>phase h = AwaitRender \<and> renderPromise h \<noteq> Pending\<close> cs
        by (simp add: settleRender_eq coreInv_unfold messagesTo_def)
    next
      case False
      let ?h' = "h\<lparr> outbox := outbox h @ [(RenderWorker, helloMsg), (RenderWorker, bindToDataMsg)],
                 console := console h @ [InfoLoadedRender, InfoBoundUI],
                 uiBound := True, phase := Bound \<rparr>"
      have eq: "settleRender h = ?h'"
        using False True by (simp add: settleRender_eq)
      have m: "\<And>i. messagesTo (LogicWorker i) ?h' = messagesTo (LogicWorker i) h"
        by (simp add: messagesTo_def)
      show ?thesis unfolding eq using assms(1) cs
        by (simp add: coreInv_unfold m isStart_simps)
    qed
  qed
qed

lemma coreInv_await_unbound:
  "coreInv h \<Longrightarrow> phase h = AwaitLogic \<Longrightarrow> logicCores h = None"
  by (cases "logicCores h") (auto simp: coreInv_unfold)

lemma hostInv_settle:
  assumes "coreInv h"
  shows "hostInv (settle h)"
proof (cases h rule: settle_cases)
  case later
  then show ?thesis using coreInv_settleRender[OF assms]
    by (simp add: hostInv_def settle_later)
next
  case waiting
  then show ?thesis using assms by (simp add: hostInv_def settle_waiting)
next
  case fatal
  have n: "logicCores h = None" using assms fatal(1) by (rule coreInv_await_unbound)
  have "coreInv (settle h)"
    using assms fatal n by (simp add: settle_fatal coreInv_unfold messagesTo_def startList_Nil)
  moreover have "phase (settle h) \<noteq> AwaitLogic" using fatal by (simp add: settle_fatal)
  ultimately show ?thesis by (simp add: hostInv_def)
next
  case proceed
  let ?cs = "fulfilledCores (logicPromises h)"
  let ?h1 = "h\<lparr> logicCores := Some ?cs, outbox := outbox h @ startList ?cs,
              console := console h @ [InfoLoadedLogic (length ?cs) (length (logicPromises h))] \<rparr>"
  let ?h2 = "(advanceTick ?h1)\<lparr> phase := AwaitRender \<rparr>"
  have n: "logicCores h = None" using assms proceed(1) by (rule coreInv_await_unbound)
  have eq: "settle h = settleRender ?h2" using proceed by (simp add: settle_proceed)
  have msgs: "\<And>t. messagesTo t ?h2
      = messagesTo t h @ map snd (filter (\<lambda>tm. fst tm = t) (startList ?cs))"
    by (simp add: messagesTo_def advanceTick_frame)
  have hello: "helloFirst ?h2"
    unfolding helloFirst_def
  proof (intro allI impI conjI)
    fix i assume i: "i < length (logicPromises ?h2)"
    then have i': "i < length (logicPromises h)" by (simp add: advanceTick_frame)
    have ps: "logicPromises ?h2 = logicPromises h" by (simp add: advanceTick_frame)
    {
      assume "logicPromises ?h2 ! i = Fulfilled"
      then obtain rest where "messagesTo (LogicWorker i) h = helloMsg # rest"
        using assms i' ps by (auto simp: coreInv_def helloFirst_def)
      then show "\<exists>rest. messagesTo (LogicWorker i) ?h2 = helloMsg # rest"
        by (simp add: msgs)
    }
    {
      assume nf: "logicPromises ?h2 ! i \<noteq> Fulfilled"
      then have "messagesTo (LogicWorker i) h = []"
        using assms i' ps by (auto simp: coreInv_def helloFirst_def)
      moreover have "i \<notin> set ?cs" using nf ps by (simp add: set_fulfilledCores)
      ultimately show "messagesTo (LogicWorker i) ?h2 = []"
        by (simp add: msgs startList_other)
    }
  qed
  have starts: "startsSent ?h2"
    using assms n proceed
    by (simp add: startsSent_iff coreInv_def advanceTick_frame filter_isStart_startList)
  have outcome: "startupOutcome ?h2"
    using assms n proceed
    by (simp add: startupOutcome_iff coreInv_def advanceTick_frame)
  have "coreInv ?h2" using hello starts outcome by (simp add: coreInv_def)
  moreover have "phase ?h2 \<noteq> AwaitLogic" by simp
  ultimately show ?thesis using coreInv_settleRender[of ?h2]
    by (simp add: hostInv_def eq)
qed

lemma allSettled_nth: "allSettled ps \<Longrightarrow> i < length ps \<Longrightarrow> ps ! i \<noteq> Pending"
  by (simp add: allSettled_def list_all_length)

lemma coreInv_logic_ready:
  assumes "hostInv h" "i < length (logicPromises h)" "logicPromises h ! i \<noteq> Rejected"
  shows "coreInv (h\<lparr> logicPromises := (logicPromises h)[i := resolve (logicPromises h ! i)],
                    outbox := outbox h @ [(LogicWorker i, helloMsg)] \<rparr>)"
    (is "coreInv ?h1")
proof -
  have ci: "coreInv h" using assms(1) by (simp add: hostInv_def)
  have res: "resolve (logicPromises h ! i) = Fulfilled"
    using assms(3) by (cases "logicPromises h ! i") (simp_all add: resolve_def)
  have msgs: "\<And>t. messagesTo t ?h1
      = messagesTo t h @ (if t = LogicWorker i then [helloMsg] else [])"
    by (simp add: messagesTo_def)
  have hello: "helloFirst ?h1"
    unfolding helloFirst_def
  proof (intro allI impI conjI)
    fix j assume j: "j < length (logicPromises ?h1)"
    then have j': "j < length (logicPromises h)" by simp
    {
      assume f: "logicPromises ?h1 ! j = Fulfilled"
      show "\<exists>rest. messagesTo (LogicWorker j) ?h1 = helloMsg # rest"
      proof (cases "logicPromises h ! j = Fulfilled")
        case True
        then obtain rest where "messagesTo (LogicWorker j) h = helloMsg # rest"
          using ci j' by (auto simp: coreInv_def helloFirst_def)
        then show ?thesis by (simp add: msgs)
      next
        case False
        then have "j = i" using f j' by (cases "j = i") simp_all
        moreover have "messagesTo (LogicWorker j) h = []"
          using ci j' False by (auto simp: coreInv_def helloFirst_def)
        ultimately show ?thesis by (simp add: msgs)
      qed
    }
    {
      assume nf: "logicPromises ?h1 ! j \<noteq> Fulfilled"
      then have ji: "j \<noteq> i" using res assms(2) by auto
      then have "logicPromises h ! j \<noteq> Fulfilled" using nf by simp
      then have "messagesTo (LogicWorker j) h = []"
        using ci j' by (auto simp: coreInv_def helloFirst_def)
      then show "messagesTo (LogicWorker j) ?h1 = []" using ji by (simp add: msgs)
    }
  qed
  have same: "logicCores h \<noteq> None \<Longrightarrow>
      (logicPromises h)[i := resolve (logicPromises h ! i)] = logicPromises h"
  proof -
    assume "logicCores h \<noteq> None"
    then have "allSettled (logicPromises h)" using ci by (auto simp: coreInv_unfold)
    then have "logicPromises h ! i \<noteq> Pending" using assms(2) by (rule allSettled_nth)
    then show ?thesis by (simp add: resolve_def)
  qed
  have starts: "startsSent ?h1"
    using ci same by (cases "logicCores h") (auto simp: coreInv_unfold isStart_simps)
  have outcome: "startupOutcome ?h1"
    using ci by (simp add: coreInv_def startupOutcome_iff msgs)
  show ?thesis using hello starts outcome by (simp add: coreInv_def)
qed

lemma coreInv_render_ready:
  "coreInv h \<Longrightarrow> coreInv (h\<lparr> renderPromise := p \<rparr>)"
  by (simp add: coreInv_unfold messagesTo_def)

lemma hostInv_worker:
  "hostInv h \<Longrightarrow> hostInv (workerDone k h)"
  by (simp add: hostInv_def coreInv_unfold messagesTo_def workerDone_def)

lemma hostInv_advanceTick:
  assumes "hostInv h" "frameLoop h"
  shows "hostInv (advanceTick h)"
proof -
  obtain cs where "logicCores h = Some cs" "cs \<noteq> []"
    using assms by (cases "logicCores h") (auto simp: hostInv_def coreInv_unfold)
  then show ?thesis using assms(1)
    by (simp add: hostInv_def coreInv_unfold messagesTo_def advanceTick_frame)
qed

lemma hostInv_step:
  assumes "hostInv h"
  shows "hostInv (step ev h)"
proof (cases ev)
  case (LogicMessage i m)
  show ?thesis
  proof (cases "i < length (logicPromises h) \<and> logicPromises h ! i \<noteq> Rejected")
    case False
    then show ?thesis using assms LogicMessage by auto
  next
    case True
    show ?thesis
    proof (cases "isReady m")
      case r: True
      show ?thesis using True LogicMessage coreInv_logic_ready[OF assms, of i]
        by (simp add: deliver_logic_ready[OF r] hostInv_settle)
    next
      case False
      from deliver_logic_other[OF this, of h i] obtain h' where
        h': "sameButLogs h h'" "deliver (logicCallbacks i) m h = settle h'" by blast
      have "coreInv h'" using h'(1) assms by (auto simp: hostInv_def intro: coreInv_logs)
      then show ?thesis using True LogicMessage h'(2) by (simp add: hostInv_settle)
    qed
  qed
next
  case (RenderMessage m)
  show ?thesis
  proof (cases "renderPromise h \<noteq> Rejected")
    case False
    then show ?thesis using assms RenderMessage by simp
  next
    case True
    show ?thesis
    proof (cases "isReady m")
      case r: True
      have "coreInv (h\<lparr> renderPromise := resolve (renderPromise h) \<rparr>)"
        using assms by (simp add: hostInv_def coreInv_render_ready)
      then show ?thesis using True RenderMessage
        by (simp add: deliver_render_ready[OF r] hostInv_settle)
    next
      case False
      from deliver_render_other[OF this, of h] obtain h' where
        h': "sameButLogs h h'" "deliver renderCallbacks m h = settle h'" by blast
      have "coreInv h'" using h'(1) assms by (auto simp: hostInv_def intro: coreInv_logs)
      then show ?thesis using True RenderMessage h'(2) by (simp add: hostInv_settle)
    qed
  qed
next
  case Refresh
  then show ?thesis using assms by (simp add: hostInv_advanceTick)
next
  case (WorkerDone k)
  then show ?thesis using assms by (simp add: hostInv_worker)
qed

lemma arrayOfLength_error: "arrayOfLength n = Inl err \<Longrightarrow> err = RangeError"
  by (auto simp: arrayOfLength_def split: jsnum.splits if_splits)

lemma hostInv_boot: "hostInv (boot e)"
proof (cases e rule: boot_cases)
  case (rangeError err)
  then have "err = RangeError" by (rule arrayOfLength_error)
  then show ?thesis using rangeError
    by (simp add: boot_rangeError hostInv_def coreInv_unfold messagesTo_def initWorld_fields)
next
  case (pending n)
  then have "\<not> allSettled (map (\<lambda>i. if workerCtorThrows e i then Rejected else Pending) [0..<n])"
    by (auto simp: allSettled_def list_all_iff)
  then show ?thesis using pending
    by (simp add: boot_pending hostInv_def coreInv_unfold messagesTo_def initWorld_fields)
next
  case (allThrow n)
  have "allSettled (replicate n Rejected)" by (simp add: allSettled_def list_all_iff)
  moreover have "fulfilledCores (replicate n Rejected) = []"
    by (simp add: fulfilledCores_def filter_empty_conv)
  ultimately show ?thesis using allThrow
    by (simp add: boot_allThrow hostInv_def coreInv_unfold messagesTo_def startList_Nil
        initWorld_fields)
qed

lemma hostInv_run: "hostInv h \<Longrightarrow> hostInv (run evs h)"
  by (induction evs rule: rev_induct) (simp_all add: run_Nil run_snoc hostInv_step)

lemma hostInv_reachable: "hostInv (run evs (boot e))"
  by (rule hostInv_run) (rule hostInv_boot)

lemma sint_succ:
  assumes "(t::64 word) \<noteq> 2 ^ 63 - 1"
  shows "sint (t + 1) = sint t + 1"
proof -
  have lo: "- (2 ^ 63) \<le> sint t" using sint_ge[of t] by simp
  have hi: "sint t < 2 ^ 63" using sint_lt[of t] by simp
  have "sint t \<noteq> 2 ^ 63 - 1"
  proof
    assume "sint t = 2 ^ 63 - 1"
    then have "word_of_int (sint t) = (word_of_int (2 ^ 63 - 1) :: 64 word)" by simp
    then have "t = 2 ^ 63 - 1" by simp
    with assms show False by simp
  qed
  with hi have "sint t + 1 < 2 ^ 63" by simp
  moreover have "- (2 ^ 63) \<le> sint t + 1" using lo by simp
  ultimately have "signed_take_bit 63 (sint t + 1) = sint t + 1"
    by (simp add: signed_take_bit_int_eq_self)
  then show ?thesis by (simp add: sint_word_add)
qed

lemma sint_small:
  assumes "unat (t::64 word) < 2 ^ 63"
  shows "sint t = int (unat t)"
proof -
  have "int (unat t) < 2 ^ 63"
    using assms by (simp only: of_nat_less_numeral_power_cancel_iff)
  then have lt: "uint t < 2 ^ 63" by simp
  have "- (2 ^ 63) \<le> (0::int)" by simp
  also have "(0::int) \<le> uint t" by simp
  finally have ge: "- (2 ^ 63) \<le> uint t" .
  have "signed_take_bit 63 (uint t) = uint t"
    using ge lt by (rule signed_take_bit_int_eq_self)
  moreover have "sint t = signed_take_bit 63 (uint t)"
    by (simp add: sint_uint)
  ultimately show ?thesis by simp
qed

lemma unat_succ_le: "unat ((t::64 word) + 1) \<le> unat t + 1"
  by (simp add: unat_word_ariths)

lemma step_tick_unat: "unat (tick (world (step ev h))) \<le> unat (tick (world h)) + 1"
  using step_tick[of ev h] unat_succ_le[of "tick (world h)"] by auto

lemma run_tick_unat: "unat (tick (world (run evs h))) \<le> unat (tick (world h)) + length evs"
proof (induction evs rule: rev_induct)
  case Nil
  then show ?case by (simp add: run_Nil)
next
  case (snoc ev evs)
  have "unat (tick (world (run (evs @ [ev]) h))) \<le> unat (tick (world (run evs h))) + 1"
    unfolding run_snoc by (rule step_tick_unat)
  with snoc show ?case by simp
qed

lemma boot_tick: "tick (world (boot e)) = 0"
  by (simp add: boot_world initWorld_fields)

lemma step_tick_signed:
  assumes "tick (world h) \<noteq> 2 ^ 63 - 1"
  shows "sint (tick (world h)) \<le> sint (tick (world (step ev h)))
       \<and> sint (tick (world (step ev h))) \<le> sint (tick (world h)) + 1"
  using step_tick[of ev h] sint_succ[OF assms] by auto

lemma tick_below_wrap:
  assumes "length evs < 2 ^ 63 - 1"
  shows "tick (world (run evs (boot e))) \<noteq> 2 ^ 63 - 1"
proof
  assume "tick (world (run evs (boot e))) = 2 ^ 63 - 1"
  then have "unat (tick (world (run evs (boot e)))) = 2 ^ 63 - 1" by simp
  moreover have "unat (tick (world (run evs (boot e)))) \<le> length evs"
    using run_tick_unat[of evs "boot e"] by (simp add: boot_tick)
  ultimately show False using assms by simp
qed

lemma oneTick_cycle:
  assumes "frameLoop h" "cores h = Num 1" "workersRunning (world h) = 1" "waiting h = []"
  shows "run oneTick h = h\<lparr> world := (world h)\<lparr> tick := tick (world h) + 1 \<rparr> \<rparr>"
  using assms
  by (simp add: oneTick_def run_Cons run_Nil workerDone_def advanceTick_eq toInt32_def
      truncToInt_def)

lemma concat_replicate_Suc: "concat (replicate (Suc n) xs) = concat (replicate n xs) @ xs"
proof -
  have "replicate (Suc n) xs = replicate n xs @ [xs]" by (simp add: replicate_append_same)
  then have "concat (replicate (Suc n) xs) = concat (replicate n xs @ [xs])" by (rule arg_cong)
  then show ?thesis by simp
qed

lemma oneTick_cycles:
  "run (concat (replicate n oneTick)) runningHost
     = runningHost\<lparr> world := (world runningHost)\<lparr> tick := 1 + of_nat n \<rparr> \<rparr>"
proof (induction n)
  case 0
  show ?case by (simp add: run_Nil runningHost_eq initWorld_fields)
next
  case (Suc n)
  let ?h = "runningHost\<lparr> world := (world runningHost)\<lparr> tick := 1 + of_nat n \<rparr> \<rparr>"
  have "concat (replicate (Suc n) oneTick) = concat (replicate n oneTick) @ oneTick"
    by (rule concat_replicate_Suc)
  then have "run (concat (replicate (Suc n) oneTick)) runningHost = run oneTick ?h"
    by (simp only: run_append Suc)
  also have "\<dots> = ?h\<lparr> world := (world ?h)\<lparr> tick := tick (world ?h) + 1 \<rparr> \<rparr>"
    by (rule oneTick_cycle) (simp_all add: runningHost_eq)
  also have "\<dots> = runningHost\<lparr> world := (world runningHost)\<lparr> tick := 1 + of_nat (Suc n) \<rparr> \<rparr>"
    by (simp add: add.commute add.left_commute)
  finally show ?case .
qed

lemma run_from_boot_oneCore:
  "run (LogicMessage 0 readyMsg # evs) (boot oneCoreEnv) = run evs runningHost"
  by (simp add: run_def runningHost_def)

subsection \<open>How one promise changes\<close>

lemma step_promise:
  assumes "k < length (logicPromises h)"
  shows "length (logicPromises (step ev h)) = length (logicPromises h)
       \<and> (logicPromises (step ev h) ! k = logicPromises h ! k
          \<or> (\<exists>m. ev = LogicMessage k m \<and> isReady m \<and> logicPromises h ! k = Pending
                 \<and> logicPromises (step ev h) ! k = Fulfilled))"
proof (cases ev)
  case (LogicMessage i m)
  show ?thesis
  proof (cases "i < length (logicPromises h) \<and> logicPromises h ! i \<noteq> Rejected")
    case False
    then show ?thesis using LogicMessage by auto
  next
    case True
    show ?thesis
    proof (cases "isReady m")
      case r: True
      have ps: "logicPromises (step ev h) = (logicPromises h)[i := resolve (logicPromises h ! i)]"
        using True LogicMessage by (simp add: deliver_logic_ready[OF r] settle_logicPromises)
      show ?thesis
      proof (cases "i = k")
        case False
        then show ?thesis by (simp add: ps)
      next
        case ik: True
        show ?thesis
        proof (cases "logicPromises h ! k")
          case Pending
          then show ?thesis unfolding ps using ik r LogicMessage assms
            by (simp add: resolve_def)
        qed (simp_all add: ps ik resolve_def assms)
      qed
    next
      case False
      from deliver_logic_other[OF this, of h i] obtain h' where
        h': "sameButLogs h h'" "deliver (logicCallbacks i) m h = settle h'" by blast
      then show ?thesis using True LogicMessage
        by (simp add: settle_logicPromises sameButLogs_fields)
    qed
  qed
next
  case (RenderMessage m)
  show ?thesis
  proof (cases "isReady m")
    case True
    then show ?thesis using RenderMessage
      by (simp add: deliver_render_ready settle_logicPromises)
  next
    case False
    from deliver_render_other[OF this, of h] obtain h' where
      h': "sameButLogs h h'" "deliver renderCallbacks m h = settle h'" by blast
    then show ?thesis using RenderMessage
      by (simp add: settle_logicPromises sameButLogs_fields)
  qed
next
  case Refresh
  then show ?thesis by (simp add: advanceTick_frame)
next
  case (WorkerDone j)
  then show ?thesis by (simp add: workerDone_def)
qed

lemma run_pending:
  assumes "\<forall>m. LogicMessage k m \<in> set evs \<longrightarrow> \<not> isReady m"
    "k < length (logicPromises h)" "logicPromises h ! k = Pending"
  shows "k < length (logicPromises (run evs h)) \<and> logicPromises (run evs h) ! k = Pending"
  using assms(1)
proof (induction evs rule: rev_induct)
  case Nil
  then show ?case using assms by (simp add: run_Nil)
next
  case (snoc ev evs)
  then have ih: "k < length (logicPromises (run evs h))" "logicPromises (run evs h) ! k = Pending"
    by auto
  have "\<forall>m. ev = LogicMessage k m \<longrightarrow> \<not> isReady m" using snoc.prems by auto
  then show ?case using step_promise[OF ih(1), of ev] ih by (auto simp: run_snoc)
qed

lemma run_rejected:
  assumes "k < length (logicPromises h)" "logicPromises h ! k = Rejected"
  shows "k < length (logicPromises (run evs h)) \<and> logicPromises (run evs h) ! k = Rejected"
proof (induction evs rule: rev_induct)
  case Nil
  then show ?case using assms by (simp add: run_Nil)
next
  case (snoc ev evs)
  then show ?case using step_promise[of k "run evs h" ev] by (auto simp: run_snoc)
qed

lemma boot_promise:
  assumes "arrayOfLength (availableCores e) = Inr n" "k < n"
  shows "k < length (logicPromises (boot e))
       \<and> logicPromises (boot e) ! k = (if workerCtorThrows e k then Rejected else Pending)"
proof (cases "\<forall>i<n. workerCtorThrows e i")
  case True
  then show ?thesis using assms by (simp add: boot_allThrow)
next
  case False
  then have "\<exists>i<n. \<not> workerCtorThrows e i" by blast
  then show ?thesis using assms by (simp add: boot_pending)
qed

subsection \<open>What the invariant says of a waiting and of a settled state\<close>

lemma hostInv_waiting:
  assumes "hostInv h" "\<not> allSettled (logicPromises h)"
  shows "phase h = AwaitLogic" "logicCores h = None" "filter isStart (outbox h) = []"
    "\<not> frameLoop h" "\<not> uiBound h" "body h = GamePage" "tick (world h) = 0"
proof -
  have ne: "logicPromises h \<noteq> []" using assms(2) by (auto simp: allSettled_def)
  show n: "logicCores h = None"
    using assms by (cases "logicCores h") (auto simp: hostInv_def coreInv_unfold)
  show "phase h = AwaitLogic" "filter isStart (outbox h) = []"
    "\<not> frameLoop h" "\<not> uiBound h" "body h = GamePage" "tick (world h) = 0"
    using assms(1) n ne by (auto simp: hostInv_def coreInv_unfold)
qed

lemma hostInv_settled:
  assumes "hostInv h" "allSettled (logicPromises h)" "logicPromises h \<noteq> []"
  shows "logicCores h = Some (fulfilledCores (logicPromises h))"
    "filter isStart (outbox h) = startList (fulfilledCores (logicPromises h))"
proof -
  have "logicCores h \<noteq> None"
    using assms by (auto simp: hostInv_def coreInv_unfold)
  then obtain cs where cs: "logicCores h = Some cs" by blast
  then show "logicCores h = Some (fulfilledCores (logicPromises h))"
    "filter isStart (outbox h) = startList (fulfilledCores (logicPromises h))"
    using assms(1) by (auto simp: hostInv_def coreInv_unfold)
qed

lemma hostInv_fatal:
  assumes "hostInv h" "logicCores h = Some []"
  shows "body h = NoCoresDiagnostic"
    "phase h = Failed (Error ''Failed to load any simulation cores.'')"
    "\<not> frameLoop h" "\<not> uiBound h" "tick (world h) = 0" "messagesTo RenderWorker h = []"
  using assms by (auto simp: hostInv_def coreInv_unfold)

lemma hostInv_proceeds:
  assumes "hostInv h" "logicCores h = Some cs" "cs \<noteq> []"
  shows "body h = GamePage" "frameLoop h"
    "phase h = AwaitRender \<or> phase h = Bound \<or> phase h = Failed WorkerConstructionError"
  using assms by (auto simp: hostInv_def coreInv_unfold)

lemma filter_start_messagesTo:
  "filter (\<lambda>m. mtype m = ''start'') (messagesTo t h)
     = map snd (filter (\<lambda>tm. fst tm = t) (filter isStart (outbox h)))"
proof -
  have "filter (\<lambda>m. mtype m = ''start'') (messagesTo t h)
      = map snd (filter (\<lambda>tm. isStart tm \<and> fst tm = t) (outbox h))"
    by (simp add: messagesTo_def filter_map comp_def isStart_def conj_commute)
  then show ?thesis by (simp add: conj_commute)
qed

lemma availableCores_twoCoreEnv: "availableCores twoCoreEnv = Num 2"
  by (simp add: availableCores_def twoCoreEnv_def unaryPlus_def reportedConcurrency_def
      reservedCores_def)

lemma arrayOfLength_twoCoreEnv: "arrayOfLength (availableCores twoCoreEnv) = Inr 2"
  using arrayOfLength_small[of 2] by (simp add: availableCores_twoCoreEnv)

lemma arrayOfLength_fourCoreEnv: "arrayOfLength (availableCores fourCoreEnv) = Inr 4"
  using arrayOfLength_small[of 4] by (simp add: availableCores_fourCoreEnv)

lemma boot_twoCoreEnv:
  "boot twoCoreEnv =
     \<lparr> cores = Num 2, world = initWorld, waiting = [],
       logicPromises = [Pending, Pending],
       renderPromise = Pending, logicCores = None, outbox = [], console = [],
       body = GamePage, phase = AwaitLogic, frameLoop = False, uiBound = False,
       uncaught = [] \<rparr>"
proof -
  have b: "\<exists>i<2. \<not> workerCtorThrows twoCoreEnv i"
    by (rule exI[of _ 0]) (simp add: twoCoreEnv_def)
  have c: "[0..<2] = [0, 1]" by (simp add: upt_rec)
  show ?thesis
    by (simp add: boot_pending[OF arrayOfLength_twoCoreEnv b] availableCores_twoCoreEnv c)
       (simp add: twoCoreEnv_def)
qed

lemma boot_noWorkerEnv:
  "boot noWorkerEnv =
     \<lparr> cores = Num 2, world = initWorld, waiting = [],
       logicPromises = [Rejected, Rejected],
       renderPromise = Pending, logicCores = Some [], outbox = [],
       console = [InfoLoadedLogic 0 2],
       body = NoCoresDiagnostic, phase = Failed (Error ''Failed to load any simulation cores.''),
       frameLoop = False, uiBound = False, uncaught = [] \<rparr>"
proof -
  have av: "availableCores noWorkerEnv = Num 2"
    by (simp add: availableCores_def noWorkerEnv_def unaryPlus_def reportedConcurrency_def
        reservedCores_def)
  have a: "arrayOfLength (availableCores noWorkerEnv) = Inr 2"
    using arrayOfLength_small[of 2] by (simp add: av)
  have b: "\<forall>i<2. workerCtorThrows noWorkerEnv i" by (simp add: noWorkerEnv_def)
  show ?thesis
    by (simp add: boot_allThrow[OF a b] av numeral_2_eq_2) (simp add: noWorkerEnv_def)
qed

text \<open>The state of the four-core example once its three constructed workers are ready.\<close>

lemma fourCore_started:
  "run [LogicMessage 0 readyMsg, LogicMessage 1 readyMsg, LogicMessage 2 readyMsg]
     (boot fourCoreEnv) =
     \<lparr> cores = Num 4, world = initWorld\<lparr> workersRunning := 4, tick := 1 \<rparr>, waiting = [],
       logicPromises = [Fulfilled, Fulfilled, Fulfilled, Rejected],
       renderPromise = Pending, logicCores = Some [0, 1, 2],
       outbox = [(LogicWorker 0, helloMsg), (LogicWorker 1, helloMsg), (LogicWorker 2, helloMsg),
                 (LogicWorker 0, startMsg 0 3), (LogicWorker 1, startMsg 1 3),
                 (LogicWorker 2, startMsg 2 3)],
       console = [InfoLoadedLogic 3 4],
       body = GamePage, phase = AwaitRender, frameLoop = True, uiBound = False,
       uncaught = [] \<rparr>"
  by (simp add: run_Cons run_Nil boot_fourCoreEnv eval_step startMsg_def)

lemma twoCore_waiting:
  "run [LogicMessage 0 readyMsg, LogicMessage 0 readyMsg] (boot twoCoreEnv) =
     \<lparr> cores = Num 2, world = initWorld, waiting = [],
       logicPromises = [Fulfilled, Pending],
       renderPromise = Pending, logicCores = None,
       outbox = [(LogicWorker 0, helloMsg), (LogicWorker 0, helloMsg)], console = [],
       body = GamePage, phase = AwaitLogic, frameLoop = False, uiBound = False,
       uncaught = [] \<rparr>"
  by (simp add: run_Cons run_Nil boot_twoCoreEnv eval_step)

lemma fourCore_duplicates:
  "run [LogicMessage 0 readyMsg, LogicMessage 1 readyMsg, LogicMessage 1 readyMsg,
        LogicMessage 2 readyMsg, LogicMessage 1 readyMsg] (boot fourCoreEnv) =
     \<lparr> cores = Num 4, world = initWorld\<lparr> workersRunning := 4, tick := 1 \<rparr>, waiting = [],
       logicPromises = [Fulfilled, Fulfilled, Fulfilled, Rejected],
       renderPromise = Pending, logicCores = Some [0, 1, 2],
       outbox = [(LogicWorker 0, helloMsg), (LogicWorker 1, helloMsg), (LogicWorker 1, helloMsg),
                 (LogicWorker 2, helloMsg),
                 (LogicWorker 0, startMsg 0 3), (LogicWorker 1, startMsg 1 3),
                 (LogicWorker 2, startMsg 2 3), (LogicWorker 1, helloMsg)],
       console = [InfoLoadedLogic 3 4],
       body = GamePage, phase = AwaitRender, frameLoop = True, uiBound = False,
       uncaught = [] \<rparr>"
  by (simp add: run_Cons run_Nil boot_fourCoreEnv eval_step startMsg_def)

subsection \<open>The tick advance, the greeting and the outcome in terms of the state\<close>

lemma refresh_step:
  "frameLoop h \<Longrightarrow>
     step Refresh h =
       (if workersRunning (world h) = 0
        then h\<lparr> world := (world h)\<lparr> workersRunning := toInt32 (cores h),
                                     tick := tick (world h) + 1 \<rparr>,
                waiting := [] \<rparr>
        else h)"
  by (simp add: advanceTick_eq)

lemma greeted_then_started:
  assumes "h = run evs (boot e)" "i < length (logicPromises h)"
    "logicPromises h ! i = Fulfilled"
  shows "\<exists>rest. messagesTo (LogicWorker i) h = helloMsg # rest
     \<and> (if allSettled (logicPromises h)
        then \<exists>k < length (fulfilledCores (logicPromises h)).
               fulfilledCores (logicPromises h) ! k = i
               \<and> filter (\<lambda>m. mtype m = ''start'') rest
                   = [startMsg k (length (fulfilledCores (logicPromises h)))]
        else filter (\<lambda>m. mtype m = ''start'') rest = [])"
proof -
  have inv: "hostInv h" unfolding assms(1) by (rule hostInv_reachable)
  then obtain rest where rest: "messagesTo (LogicWorker i) h = helloMsg # rest"
    using assms(2,3) by (auto simp: hostInv_def coreInv_def helloFirst_def)
  have "filter (\<lambda>m. mtype m = ''start'') (messagesTo (LogicWorker i) h)
      = filter (\<lambda>m. mtype m = ''start'') rest"
    by (simp add: rest helloMsg_def)
  then have fr: "filter (\<lambda>m. mtype m = ''start'') rest
      = map snd (filter (\<lambda>tm. fst tm = LogicWorker i) (filter isStart (outbox h)))"
    by (simp add: filter_start_messagesTo)
  have "if allSettled (logicPromises h)
        then \<exists>k < length (fulfilledCores (logicPromises h)).
               fulfilledCores (logicPromises h) ! k = i
               \<and> filter (\<lambda>m. mtype m = ''start'') rest
                   = [startMsg k (length (fulfilledCores (logicPromises h)))]
        else filter (\<lambda>m. mtype m = ''start'') rest = []"
  proof (cases "allSettled (logicPromises h)")
    case True
    have ne: "logicPromises h \<noteq> []" using assms(2) by auto
    have st: "filter isStart (outbox h) = startList (fulfilledCores (logicPromises h))"
      using hostInv_settled(2)[OF inv True ne] .
    have "i \<in> set (fulfilledCores (logicPromises h))"
      using assms(2,3) by (simp add: set_fulfilledCores)
    from startList_one_core[OF distinct_fulfilledCores this]
    show ?thesis using True by (auto simp: fr st)
  next
    case False
    then show ?thesis using hostInv_waiting(3)[OF inv False] by (simp add: fr)
  qed
  with rest show ?thesis by blast
qed

lemma outcome_once_settled:
  assumes "h = run evs (boot e)"
  shows "(allSettled (logicPromises h) \<and> logicPromises h \<noteq> []
            \<and> fulfilledCores (logicPromises h) = [] \<longrightarrow>
          body h = NoCoresDiagnostic
          \<and> phase h = Failed (Error ''Failed to load any simulation cores.'')
          \<and> \<not> frameLoop h \<and> \<not> uiBound h \<and> tick (world h) = 0
          \<and> messagesTo RenderWorker h = [])
       \<and> (allSettled (logicPromises h) \<and> fulfilledCores (logicPromises h) \<noteq> [] \<longrightarrow>
          body h = GamePage \<and> frameLoop h
          \<and> logicCores h = Some (fulfilledCores (logicPromises h))
          \<and> filter isStart (outbox h) = startList (fulfilledCores (logicPromises h))
          \<and> (phase h = AwaitRender \<or> phase h = Bound
              \<or> phase h = Failed WorkerConstructionError))
       \<and> (\<not> allSettled (logicPromises h) \<longrightarrow>
          phase h = AwaitLogic \<and> body h = GamePage \<and> \<not> frameLoop h \<and> \<not> uiBound h
          \<and> filter isStart (outbox h) = [])"
proof -
  have inv: "hostInv h" unfolding assms by (rule hostInv_reachable)
  show ?thesis
  proof (intro conjI impI)
    assume a: "allSettled (logicPromises h) \<and> logicPromises h \<noteq> []
            \<and> fulfilledCores (logicPromises h) = []"
    then have "logicCores h = Some []" using hostInv_settled(1)[OF inv] by auto
    from hostInv_fatal[OF inv this]
    show "body h = NoCoresDiagnostic"
      "phase h = Failed (Error ''Failed to load any simulation cores.'')"
      "\<not> frameLoop h" "\<not> uiBound h" "tick (world h) = 0" "messagesTo RenderWorker h = []"
      by auto
  next
    assume a: "allSettled (logicPromises h) \<and> fulfilledCores (logicPromises h) \<noteq> []"
    then have ne: "logicPromises h \<noteq> []" by (auto simp: fulfilledCores_def)
    show lc: "logicCores h = Some (fulfilledCores (logicPromises h))"
      using hostInv_settled(1)[OF inv] a ne by blast
    show "filter isStart (outbox h) = startList (fulfilledCores (logicPromises h))"
      using hostInv_settled(2)[OF inv] a ne by blast
    from hostInv_proceeds[OF inv lc] a
    show "body h = GamePage" "frameLoop h"
      "phase h = AwaitRender \<or> phase h = Bound \<or> phase h = Failed WorkerConstructionError"
      by auto
  next
    assume a: "\<not> allSettled (logicPromises h)"
    from hostInv_waiting[OF inv a]
    show "phase h = AwaitLogic" "body h = GamePage" "\<not> frameLoop h" "\<not> uiBound h"
      "filter isStart (outbox h) = []" by auto
  qed
qed

subsection \<open>The promises in terms of the events\<close>

lemma resolve_simps:
  "resolve Pending = Fulfilled" "resolve Fulfilled = Fulfilled" "resolve Rejected = Rejected"
  "resolve (resolve p) = resolve p" "(resolve p = Rejected) = (p = Rejected)"
  by (cases p; simp add: resolve_def)+

lemma step_length: "length (logicPromises (step ev h)) = length (logicPromises h)"
proof (cases ev)
  case (LogicMessage i m)
  show ?thesis
  proof (cases "isReady m")
    case True
    then show ?thesis using LogicMessage
      by (simp add: deliver_logic_ready settle_logicPromises)
  next
    case False
    from deliver_logic_other[OF this, of h i] obtain h' where
      "sameButLogs h h'" "deliver (logicCallbacks i) m h = settle h'" by blast
    then show ?thesis using LogicMessage
      by (simp add: settle_logicPromises sameButLogs_fields)
  qed
next
  case (RenderMessage m)
  show ?thesis
  proof (cases "isReady m")
    case True
    then show ?thesis using RenderMessage
      by (simp add: deliver_render_ready settle_logicPromises)
  next
    case False
    from deliver_render_other[OF this, of h] obtain h' where
      "sameButLogs h h'" "deliver renderCallbacks m h = settle h'" by blast
    then show ?thesis using RenderMessage
      by (simp add: settle_logicPromises sameButLogs_fields)
  qed
next
  case Refresh
  then show ?thesis by (simp add: advanceTick_frame)
next
  case (WorkerDone j)
  then show ?thesis by (simp add: workerDone_def)
qed

lemma step_promise_exact:
  assumes "k < length (logicPromises h)"
  shows "logicPromises (step ev h) ! k
       = (if readyFrom k ev then resolve (logicPromises h ! k) else logicPromises h ! k)"
proof (cases ev)
  case (LogicMessage i m)
  show ?thesis
  proof (cases "i < length (logicPromises h) \<and> logicPromises h ! i \<noteq> Rejected")
    case False
    then have "readyFrom k ev \<Longrightarrow> logicPromises h ! k = Rejected"
      using LogicMessage assms by (auto simp: readyFrom_def)
    then show ?thesis using False LogicMessage by (auto simp: resolve_simps)
  next
    case True
    show ?thesis
    proof (cases "isReady m")
      case r: True
      have ps: "logicPromises (step ev h) = (logicPromises h)[i := resolve (logicPromises h ! i)]"
        using True LogicMessage by (simp add: deliver_logic_ready[OF r] settle_logicPromises)
      show ?thesis unfolding ps using LogicMessage r assms
        by (cases "i = k") (simp_all add: readyFrom_def)
    next
      case False
      from deliver_logic_other[OF this, of h i] obtain h' where
        h': "sameButLogs h h'" "deliver (logicCallbacks i) m h = settle h'" by blast
      then show ?thesis using True LogicMessage False
        by (simp add: settle_logicPromises sameButLogs_fields readyFrom_def)
    qed
  qed
next
  case (RenderMessage m)
  show ?thesis
  proof (cases "isReady m")
    case True
    then show ?thesis using RenderMessage
      by (simp add: deliver_render_ready settle_logicPromises readyFrom_def)
  next
    case False
    from deliver_render_other[OF this, of h] obtain h' where
      h': "sameButLogs h h'" "deliver renderCallbacks m h = settle h'" by blast
    then show ?thesis using RenderMessage
      by (simp add: settle_logicPromises sameButLogs_fields readyFrom_def)
  qed
next
  case Refresh
  then show ?thesis by (simp add: advanceTick_frame readyFrom_def)
next
  case (WorkerDone j)
  then show ?thesis by (simp add: workerDone_def readyFrom_def)
qed

lemma run_length: "length (logicPromises (run evs h)) = length (logicPromises h)"
  by (induction evs rule: rev_induct) (simp_all add: run_Nil run_snoc step_length)

lemma signalled_snoc: "signalled (evs @ [ev]) i = (signalled evs i \<or> readyFrom i ev)"
  by (simp add: signalled_def)

lemma run_promise:
  assumes "k < length (logicPromises h)"
  shows "logicPromises (run evs h) ! k
       = (if signalled evs k then resolve (logicPromises h ! k) else logicPromises h ! k)"
proof (induction evs rule: rev_induct)
  case Nil
  show ?case by (simp add: run_Nil signalled_def)
next
  case (snoc ev evs)
  have k: "k < length (logicPromises (run evs h))" using assms by (simp add: run_length)
  show ?case
    unfolding run_snoc step_promise_exact[OF k] snoc.IH signalled_snoc
    by (simp add: resolve_simps)
qed

lemma boot_promises:
  assumes "arrayOfLength (availableCores e) = Inr n"
  shows "logicPromises (boot e)
       = map (\<lambda>i. if workerCtorThrows e i then Rejected else Pending) [0..<n]"
proof (cases "\<forall>i<n. workerCtorThrows e i")
  case True
  then have "map (\<lambda>i. if workerCtorThrows e i then Rejected else Pending) [0..<n]
      = replicate n Rejected"
    by (auto simp: list_eq_iff_nth_eq)
  then show ?thesis using assms True by (simp add: boot_allThrow)
next
  case False
  then have "\<exists>i<n. \<not> workerCtorThrows e i" by blast
  then show ?thesis using assms by (simp add: boot_pending)
qed

lemma run_boot_promises:
  assumes "arrayOfLength (availableCores e) = Inr n"
  shows "logicPromises (run evs (boot e))
       = map (\<lambda>i. if workerCtorThrows e i then Rejected
                   else if signalled evs i then Fulfilled else Pending) [0..<n]"
proof (rule nth_equalityI)
  show "length (logicPromises (run evs (boot e)))
      = length (map (\<lambda>i. if workerCtorThrows e i then Rejected
                   else if signalled evs i then Fulfilled else Pending) [0..<n])"
    by (simp add: run_length boot_promises[OF assms])
next
  fix i assume "i < length (logicPromises (run evs (boot e)))"
  then have i: "i < n" by (simp add: run_length boot_promises[OF assms])
  then have "i < length (logicPromises (boot e))" by (simp add: boot_promises[OF assms])
  from run_promise[OF this, of evs] i
  show "logicPromises (run evs (boot e)) ! i
      = map (\<lambda>i. if workerCtorThrows e i then Rejected
                   else if signalled evs i then Fulfilled else Pending) [0..<n] ! i"
    by (simp add: boot_promises[OF assms] resolve_simps)
qed

lemma settled_by_events:
  assumes "arrayOfLength (availableCores e) = Inr n"
  shows "allSettled (logicPromises (run evs (boot e))) = settledBy e n evs"
  by (auto simp: run_boot_promises[OF assms] allSettled_def settledBy_def list_all_iff)

lemma ready_by_events:
  assumes "arrayOfLength (availableCores e) = Inr n"
  shows "fulfilledCores (logicPromises (run evs (boot e))) = readyWorkers e n evs"
  unfolding run_boot_promises[OF assms] fulfilledCores_def readyWorkers_def
  by (auto intro!: filter_cong split: if_splits)

lemma arrayOfLength_nonzero:
  assumes "arrayOfLength (Num r) = Inr n" "r \<noteq> 0"
  shows "0 < n"
proof (rule ccontr)
  assume "\<not> 0 < n"
  then have n: "n = 0" by simp
  from assms(1) have r: "0 \<le> r" "of_int \<lfloor>r\<rfloor> = r" "n = nat \<lfloor>r\<rfloor>"
    by (auto simp: arrayOfLength_def split: if_splits)
  from r(1) have lo: "0 \<le> \<lfloor>r\<rfloor>" by simp
  from n r(3) have "nat \<lfloor>r\<rfloor> = 0" by simp
  then have "\<lfloor>r\<rfloor> \<le> 0" by linarith
  with lo have "\<lfloor>r\<rfloor> = 0" by linarith
  then have "of_int \<lfloor>r\<rfloor> = (0::rat)" by (simp only: of_int_0)
  with r(2) have "r = 0" by (simp only:)
  with assms(2) show False by simp
qed

lemma arrayOfLength_positive:
  assumes "arrayOfLength (availableCores e) = Inr n"
  shows "0 < n"
proof (cases "truthy (unaryPlus (coreOverride e))")
  case True
  then have av: "availableCores e = unaryPlus (coreOverride e)"
    by (simp add: availableCores_def)
  from assms obtain r where r: "availableCores e = Num r"
    by (cases "availableCores e") (simp_all add: arrayOfLength_def)
  then have "r \<noteq> 0" using True av by simp
  with assms r show ?thesis using arrayOfLength_nonzero by simp
next
  case False
  then have "availableCores e
      = Num (of_int (max 1 (int (reportedConcurrency e) - reservedCores)))"
    by (simp add: availableCores_def)
  moreover have "(of_int (max 1 (int (reportedConcurrency e) - reservedCores)) :: rat) \<noteq> 0"
    by simp
  ultimately show ?thesis using assms arrayOfLength_nonzero by simp
qed

subsection \<open>The greetings in terms of the events\<close>

lemma boot_outbox: "outbox (boot e) = []"
  by (cases e rule: boot_cases) (simp_all add: boot_rangeError boot_pending boot_allThrow)

lemma hellosTo_outbox:
  "hellosTo i h
     = map snd (filter (\<lambda>tm. fst tm = LogicWorker i \<and> mtype (snd tm) = ''hello'') (outbox h))"
  by (simp add: hellosTo_def messagesTo_def filter_map comp_def conj_commute)

lemma hellosTo_append:
  assumes "outbox h' = outbox h @ xs"
  shows "hellosTo i h'
     = hellosTo i h
       @ map snd (filter (\<lambda>tm. fst tm = LogicWorker i \<and> mtype (snd tm) = ''hello'') xs)"
  by (simp add: hellosTo_outbox assms)

lemma settleRender_outbox:
  "\<exists>ys. outbox (settleRender h) = outbox h @ ys \<and> (\<forall>tm \<in> set ys. fst tm = RenderWorker)"
proof (cases "phase h = AwaitRender \<and> renderPromise h \<noteq> Pending \<and> renderPromise h \<noteq> Rejected")
  case True
  then have "outbox (settleRender h)
      = outbox h @ [(RenderWorker, helloMsg), (RenderWorker, bindToDataMsg)]"
    by (simp add: settleRender_eq)
  then show ?thesis
    by (intro exI[of _ "[(RenderWorker, helloMsg), (RenderWorker, bindToDataMsg)]"]) simp
next
  case False
  then have "outbox (settleRender h) = outbox h"
    by (cases "phase h = AwaitRender \<and> renderPromise h \<noteq> Pending") (simp_all add: settleRender_eq)
  then show ?thesis by (intro exI[of _ "[]"]) simp
qed

lemma startList_isStart: "tm \<in> set (startList cs) \<Longrightarrow> isStart tm"
  by (auto simp: startList_def isStart_simps)

lemma not_hello_to_logic:
  assumes "fst tm = RenderWorker \<or> isStart tm"
  shows "\<not> (fst tm = LogicWorker i \<and> mtype (snd tm) = ''hello'')"
proof
  assume a: "fst tm = LogicWorker i \<and> mtype (snd tm) = ''hello''"
  then have "fst tm \<noteq> RenderWorker" by simp
  with assms have "isStart tm" by simp
  then have "mtype (snd tm) = ''start''" by (simp add: isStart_def)
  with a show False by simp
qed

lemma settle_outbox:
  "\<exists>xs. outbox (settle h) = outbox h @ xs
     \<and> (\<forall>tm \<in> set xs. fst tm = RenderWorker \<or> isStart tm)"
proof (cases h rule: settle_cases)
  case later
  from settleRender_outbox[of h] obtain ys where
    ys: "outbox (settleRender h) = outbox h @ ys" "\<forall>tm \<in> set ys. fst tm = RenderWorker"
    by blast
  have "outbox (settle h) = outbox h @ ys" using later ys(1) by (simp add: settle_later)
  then show ?thesis using ys(2) by (intro exI[of _ ys]) simp
next
  case waiting
  then have "outbox (settle h) = outbox h" by (simp add: settle_waiting)
  then show ?thesis by (intro exI[of _ "[]"]) simp
next
  case fatal
  then have "outbox (settle h) = outbox h" by (simp add: settle_fatal)
  then show ?thesis by (intro exI[of _ "[]"]) simp
next
  case proceed
  let ?cs = "fulfilledCores (logicPromises h)"
  let ?h1 = "h\<lparr> logicCores := Some ?cs, outbox := outbox h @ startList ?cs,
              console := console h @ [InfoLoadedLogic (length ?cs) (length (logicPromises h))] \<rparr>"
  let ?h2 = "(advanceTick ?h1)\<lparr> phase := AwaitRender \<rparr>"
  have eq: "settle h = settleRender ?h2" using proceed by (simp add: settle_proceed)
  from settleRender_outbox[of ?h2] obtain ys where
    ys: "outbox (settleRender ?h2) = outbox ?h2 @ ys" "\<forall>tm \<in> set ys. fst tm = RenderWorker"
    by blast
  have "outbox ?h2 = outbox h @ startList ?cs" by (simp add: advanceTick_frame)
  then have ob: "outbox (settle h) = outbox h @ (startList ?cs @ ys)"
    unfolding eq ys(1) by simp
  have "\<forall>tm \<in> set (startList ?cs @ ys). fst tm = RenderWorker \<or> isStart tm"
  proof
    fix tm assume "tm \<in> set (startList ?cs @ ys)"
    then consider "tm \<in> set (startList ?cs)" | "tm \<in> set ys" by auto
    then show "fst tm = RenderWorker \<or> isStart tm"
    proof cases
      case 1
      then show ?thesis by (simp add: startList_isStart)
    next
      case 2
      then show ?thesis using ys(2) by simp
    qed
  qed
  with ob show ?thesis by (intro exI[of _ "startList ?cs @ ys"]) simp
qed

lemma settle_hellos: "hellosTo i (settle h) = hellosTo i h"
proof -
  from settle_outbox[of h] obtain xs where
    xs: "outbox (settle h) = outbox h @ xs" "\<forall>tm \<in> set xs. fst tm = RenderWorker \<or> isStart tm"
    by blast
  have "\<forall>tm \<in> set xs. \<not> (fst tm = LogicWorker i \<and> mtype (snd tm) = ''hello'')"
    using xs(2) not_hello_to_logic by blast
  then have "filter (\<lambda>tm. fst tm = LogicWorker i \<and> mtype (snd tm) = ''hello'') xs = []"
    by (simp only: filter_empty_conv)
  then show ?thesis using hellosTo_append[OF xs(1), of i] by simp
qed

lemma hellosTo_logs: "sameButLogs h h' \<Longrightarrow> hellosTo i h' = hellosTo i h"
  by (simp add: hellosTo_def messagesTo_logs)

lemma step_hellos:
  assumes "i < length (logicPromises h)" "logicPromises h ! i \<noteq> Rejected"
  shows "hellosTo i (step ev h) = hellosTo i h @ (if readyFrom i ev then [helloMsg] else [])"
proof (cases ev)
  case (LogicMessage j m)
  show ?thesis
  proof (cases "j < length (logicPromises h) \<and> logicPromises h ! j \<noteq> Rejected")
    case False
    then have "j \<noteq> i" using assms by auto
    then show ?thesis using False LogicMessage by (auto simp: readyFrom_def)
  next
    case True
    show ?thesis
    proof (cases "isReady m")
      case r: True
      let ?h1 = "h\<lparr> logicPromises := (logicPromises h)[j := resolve (logicPromises h ! j)],
               outbox := outbox h @ [(LogicWorker j, helloMsg)] \<rparr>"
      have "outbox ?h1 = outbox h @ [(LogicWorker j, helloMsg)]" by simp
      from hellosTo_append[OF this, of i]
      have "hellosTo i ?h1 = hellosTo i h @ (if j = i then [helloMsg] else [])"
        by (simp add: helloMsg_def)
      then show ?thesis using True LogicMessage r
        by (simp add: deliver_logic_ready[OF r] settle_hellos readyFrom_def)
    next
      case False
      from deliver_logic_other[OF this, of h j] obtain h' where
        h': "sameButLogs h h'" "deliver (logicCallbacks j) m h = settle h'" by blast
      then show ?thesis using True LogicMessage False
        by (simp add: settle_hellos hellosTo_logs readyFrom_def)
    qed
  qed
next
  case (RenderMessage m)
  show ?thesis
  proof (cases "isReady m")
    case True
    have "hellosTo i (h\<lparr> renderPromise := resolve (renderPromise h) \<rparr>) = hellosTo i h"
      by (simp add: hellosTo_def messagesTo_def)
    then show ?thesis using RenderMessage True
      by (simp add: deliver_render_ready settle_hellos readyFrom_def)
  next
    case False
    from deliver_render_other[OF this, of h] obtain h' where
      h': "sameButLogs h h'" "deliver renderCallbacks m h = settle h'" by blast
    then show ?thesis using RenderMessage
      by (simp add: settle_hellos hellosTo_logs readyFrom_def)
  qed
next
  case Refresh
  then show ?thesis
    by (simp add: hellosTo_def messagesTo_def advanceTick_frame readyFrom_def)
next
  case (WorkerDone k)
  then show ?thesis by (simp add: hellosTo_def messagesTo_def workerDone_def readyFrom_def)
qed

lemma run_hellos:
  assumes "i < length (logicPromises h)" "logicPromises h ! i \<noteq> Rejected"
  shows "hellosTo i (run evs h)
       = hellosTo i h @ replicate (length (filter (readyFrom i) evs)) helloMsg"
proof (induction evs rule: rev_induct)
  case Nil
  show ?case by (simp add: run_Nil)
next
  case (snoc ev evs)
  have k: "i < length (logicPromises (run evs h))" using assms(1) by (simp add: run_length)
  have "logicPromises (run evs h) ! i \<noteq> Rejected"
    using assms(2) by (simp add: run_promise[OF assms(1)] resolve_simps)
  from step_hellos[OF k this, of ev] snoc.IH
  show ?case by (simp add: run_snoc replicate_append_same)
qed

subsection \<open>A script that failed on the array of workers stays as it is\<close>

lemma rangeError_step:
  assumes "phase h = Failed RangeError" "logicPromises h = []" "\<not> frameLoop h"
  shows "phase (step ev h) = Failed RangeError \<and> logicPromises (step ev h) = []
       \<and> \<not> frameLoop (step ev h) \<and> body (step ev h) = body h
       \<and> uiBound (step ev h) = uiBound h \<and> outbox (step ev h) = outbox h
       \<and> tick (world (step ev h)) = tick (world h)"
proof (cases ev)
  case (LogicMessage i m)
  then show ?thesis using assms by simp
next
  case (RenderMessage m)
  show ?thesis
  proof (cases "isReady m")
    case True
    then show ?thesis using RenderMessage assms
      by (simp add: deliver_render_ready settle_later settleRender_eq)
  next
    case False
    from deliver_render_other[OF this, of h] obtain h' where
      h': "sameButLogs h h'" "deliver renderCallbacks m h = settle h'" by blast
    then show ?thesis using RenderMessage assms
      by (simp add: settle_later settleRender_eq sameButLogs_fields)
  qed
next
  case Refresh
  then show ?thesis using assms by simp
next
  case (WorkerDone k)
  then show ?thesis using assms by (simp add: workerDone_def)
qed

lemma rangeError_run:
  assumes "phase h = Failed RangeError" "logicPromises h = []" "\<not> frameLoop h"
  shows "phase (run evs h) = Failed RangeError \<and> logicPromises (run evs h) = []
       \<and> \<not> frameLoop (run evs h) \<and> body (run evs h) = body h
       \<and> uiBound (run evs h) = uiBound h \<and> outbox (run evs h) = outbox h
       \<and> tick (world (run evs h)) = tick (world h)"
proof (induction evs rule: rev_induct)
  case Nil
  show ?case using assms by (simp add: run_Nil)
next
  case (snoc ev evs)
  then show ?case using rangeError_step[of "run evs h" ev] by (simp add: run_snoc)
qed

lemma fourCore_two_ready:
  "run [LogicMessage 0 readyMsg, LogicMessage 1 readyMsg] (boot fourCoreEnv) =
     \<lparr> cores = Num 4, world = initWorld, waiting = [],
       logicPromises = [Fulfilled, Fulfilled, Pending, Rejected],
       renderPromise = Pending, logicCores = None,
       outbox = [(LogicWorker 0, helloMsg), (LogicWorker 1, helloMsg)], console = [],
       body = GamePage, phase = AwaitLogic, frameLoop = False, uiBound = False,
       uncaught = [] \<rparr>"
  by (simp add: run_Cons run_Nil boot_fourCoreEnv eval_step)

lemma fourCore_pass_done:
  "run [LogicMessage 0 readyMsg, LogicMessage 1 readyMsg, LogicMessage 2 readyMsg,
        WorkerDone 0, WorkerDone 1, WorkerDone 2] (boot fourCoreEnv) =
     \<lparr> cores = Num 4, world = initWorld\<lparr> workersRunning := 1, tick := 1 \<rparr>,
       waiting = [0, 1, 2],
       logicPromises = [Fulfilled, Fulfilled, Fulfilled, Rejected],
       renderPromise = Pending, logicCores = Some [0, 1, 2],
       outbox = [(LogicWorker 0, helloMsg), (LogicWorker 1, helloMsg), (LogicWorker 2, helloMsg),
                 (LogicWorker 0, startMsg 0 3), (LogicWorker 1, startMsg 1 3),
                 (LogicWorker 2, startMsg 2 3)],
       console = [InfoLoadedLogic 3 4],
       body = GamePage, phase = AwaitRender, frameLoop = True, uiBound = False,
       uncaught = [] \<rparr>"
  by (simp add: run_Cons run_Nil boot_fourCoreEnv eval_step startMsg_def)

lemma fourCore_events:
  "signalled [LogicMessage 0 readyMsg, LogicMessage 1 readyMsg, LogicMessage 1 readyMsg,
              LogicMessage 2 readyMsg, LogicMessage 1 readyMsg] 1"
  "settledBy fourCoreEnv 4 [LogicMessage 0 readyMsg, LogicMessage 1 readyMsg,
              LogicMessage 1 readyMsg, LogicMessage 2 readyMsg, LogicMessage 1 readyMsg]"
  "readyWorkers fourCoreEnv 4 [LogicMessage 0 readyMsg, LogicMessage 1 readyMsg,
              LogicMessage 1 readyMsg, LogicMessage 2 readyMsg, LogicMessage 1 readyMsg]
     = [0, 1, 2]"
  "length (filter (readyFrom 1) [LogicMessage 0 readyMsg, LogicMessage 1 readyMsg,
              LogicMessage 1 readyMsg, LogicMessage 2 readyMsg, LogicMessage 1 readyMsg]) = 3"
  by (simp_all add: signalled_def settledBy_def readyWorkers_def readyFrom_def isReady_def
      readyMsg_def fourCoreEnv_def upt_rec)

lemma boot_negativeOverrideEnv:
  "boot negativeOverrideEnv =
     \<lparr> cores = Num (- 1), world = initWorld, waiting = [],
       logicPromises = [], renderPromise = Pending,
       logicCores = None, outbox = [], console = [],
       body = GamePage, phase = Failed RangeError, frameLoop = False, uiBound = False,
       uncaught = [] \<rparr>"
proof -
  have av: "availableCores negativeOverrideEnv = Num (- 1)"
    by (simp add: availableCores_def negativeOverrideEnv_def unaryPlus_def)
  have "arrayOfLength (availableCores negativeOverrideEnv) = Inl RangeError"
    unfolding av by (rule arrayOfLength_negative) simp
  from boot_rangeError[OF this] show ?thesis by (simp add: av)
qed

lemma arrayOfLength_examples:
  "arrayOfLength (availableCores noWorkerEnv) = Inr 2"
  "arrayOfLength (availableCores oneCoreEnv) = Inr 1"
  "arrayOfLength (availableCores negativeOverrideEnv) = Inl RangeError"
proof -
  have "availableCores noWorkerEnv = Num 2"
    by (simp add: availableCores_def noWorkerEnv_def unaryPlus_def reportedConcurrency_def
        reservedCores_def)
  then show "arrayOfLength (availableCores noWorkerEnv) = Inr 2"
    using arrayOfLength_small[of 2] by simp
  show "arrayOfLength (availableCores oneCoreEnv) = Inr 1"
    using arrayOfLength_small[of 1] by (simp add: availableCores_oneCoreEnv)
  have "availableCores negativeOverrideEnv = Num (- 1)"
    by (simp add: availableCores_def negativeOverrideEnv_def unaryPlus_def)
  then show "arrayOfLength (availableCores negativeOverrideEnv) = Inl RangeError"
    by (simp add: arrayOfLength_negative)
qed

lemma example_events:
  "settledBy noWorkerEnv 2 [Refresh]" "readyWorkers noWorkerEnv 2 [Refresh] = []"
  "settledBy fourCoreEnv 4 [LogicMessage 0 readyMsg, LogicMessage 1 readyMsg, LogicMessage 2 readyMsg]"
  "readyWorkers fourCoreEnv 4
     [LogicMessage 0 readyMsg, LogicMessage 1 readyMsg, LogicMessage 2 readyMsg] = [0, 1, 2]"
  "\<not> settledBy oneCoreEnv 1 [LogicMessage 0 pongMsg]"
  by (simp_all add: signalled_def settledBy_def readyWorkers_def readyFrom_def isReady_def
      readyMsg_def pongMsg_def fourCoreEnv_def noWorkerEnv_def oneCoreEnv_def upt_rec)

section \<open>The claims\<close>

text \<open>
  Claim C1 at a startup with a reduced pool: four workers are requested, the fourth
  cannot be constructed, the other three signal \<^verbatim>\<open>ready\<close>. The three \<^verbatim>\<open>start\<close> messages
  carry the count 3, but the tick advance swaps \<^verbatim>\<open>workersRunning\<close> to 4, the number
  requested. Once the three workers have finished their pass the counter stands at 1, so
  the next refresh does not advance the tick.
\<close>

theorem reduced_pool_reset_value:
  "logicCores (run [LogicMessage 0 readyMsg, LogicMessage 1 readyMsg, LogicMessage 2 readyMsg]
                 (boot fourCoreEnv)) = Some [0, 1, 2]
   \<and> filter isStart
         (outbox (run [LogicMessage 0 readyMsg, LogicMessage 1 readyMsg, LogicMessage 2 readyMsg]
                   (boot fourCoreEnv)))
       = [(LogicWorker 0, startMsg 0 3), (LogicWorker 1, startMsg 1 3), (LogicWorker 2, startMsg 2 3)]
   \<and> workersRunning
         (world (run [LogicMessage 0 readyMsg, LogicMessage 1 readyMsg, LogicMessage 2 readyMsg]
                   (boot fourCoreEnv))) = 4
   \<and> workersRunning
         (world (run [LogicMessage 0 readyMsg, LogicMessage 1 readyMsg, LogicMessage 2 readyMsg,
                      WorkerDone 0, WorkerDone 1, WorkerDone 2, Refresh]
                   (boot fourCoreEnv))) = 1
   \<and> tick
         (world (run [LogicMessage 0 readyMsg, LogicMessage 1 readyMsg, LogicMessage 2 readyMsg,
                      WorkerDone 0, WorkerDone 1, WorkerDone 2, Refresh]
                   (boot fourCoreEnv))) = 1"
  by (simp add: run_Cons run_Nil boot_fourCoreEnv eval_step isStart_def helloMsg_def startMsg_def)

text \<open>
  Claim C2 at the first invocation of the tick advance in a startup with a reduced pool
  (four workers requested, the fourth cannot be constructed, three signal \<^verbatim>\<open>ready\<close>).
  Before it \<^verbatim>\<open>workersRunning\<close> and the tick are 0. The invocation compares with 0, swaps
  and adds 1 to the tick as the claim says, but the value it swaps in is 4, the number
  requested, whereas the pool has 3 workers. After the three workers have finished their
  pass the counter is 1, and a refresh changes nothing.
\<close>

theorem first_advance_swaps_requested_count:
  "workersRunning (world (run [LogicMessage 0 readyMsg, LogicMessage 1 readyMsg]
       (boot fourCoreEnv))) = 0
   \<and> tick (world (run [LogicMessage 0 readyMsg, LogicMessage 1 readyMsg]
       (boot fourCoreEnv))) = 0
   \<and> logicCores (run [LogicMessage 0 readyMsg, LogicMessage 1 readyMsg, LogicMessage 2 readyMsg]
       (boot fourCoreEnv)) = Some [0, 1, 2]
   \<and> cores (run [LogicMessage 0 readyMsg, LogicMessage 1 readyMsg, LogicMessage 2 readyMsg]
       (boot fourCoreEnv)) = Num 4
   \<and> workersRunning (world (run [LogicMessage 0 readyMsg, LogicMessage 1 readyMsg,
       LogicMessage 2 readyMsg] (boot fourCoreEnv))) = 4
   \<and> tick (world (run [LogicMessage 0 readyMsg, LogicMessage 1 readyMsg,
       LogicMessage 2 readyMsg] (boot fourCoreEnv))) = 1
   \<and> step Refresh (run [LogicMessage 0 readyMsg, LogicMessage 1 readyMsg, LogicMessage 2 readyMsg,
        WorkerDone 0, WorkerDone 1, WorkerDone 2] (boot fourCoreEnv))
      = run [LogicMessage 0 readyMsg, LogicMessage 1 readyMsg, LogicMessage 2 readyMsg,
        WorkerDone 0, WorkerDone 1, WorkerDone 2] (boot fourCoreEnv)"
  unfolding fourCore_two_ready fourCore_started fourCore_pass_done
  by (simp add: initWorld_fields advanceTick_eq)

text \<open>
  Claim C3, as stated, fails: there is no settle window. Two workers are requested and
  constructed; the first signals \<^verbatim>\<open>ready\<close>, the second stays silent while the display
  refreshes and sends something else. The first worker is greeted, and that is all: no
  \<^verbatim>\<open>start\<close> is sent, the script is still at its first await and the tick is still 0.
\<close>

theorem silent_worker_blocks_start:
  "logicPromises (run [LogicMessage 0 readyMsg, Refresh, LogicMessage 1 pongMsg, Refresh]
       (boot twoCoreEnv)) = [Fulfilled, Pending]
   \<and> outbox (run [LogicMessage 0 readyMsg, Refresh, LogicMessage 1 pongMsg, Refresh]
       (boot twoCoreEnv)) = [(LogicWorker 0, helloMsg)]
   \<and> phase (run [LogicMessage 0 readyMsg, Refresh, LogicMessage 1 pongMsg, Refresh]
       (boot twoCoreEnv)) = AwaitLogic
   \<and> tick (world (run [LogicMessage 0 readyMsg, Refresh, LogicMessage 1 pongMsg, Refresh]
       (boot twoCoreEnv))) = 0"
  by (simp add: run_Cons run_Nil boot_twoCoreEnv eval_step)

text \<open>
  Claim C3, amended. The host waits for every requested worker to settle. While a worker
  that was constructed has not signalled \<^verbatim>\<open>ready\<close>, no sequence of other events makes the
  host send a \<^verbatim>\<open>start\<close>, leave the first await or advance the tick. A worker whose
  construction threw is rejected for good and is not among the started workers. Once
  every requested worker has settled, the \<^verbatim>\<open>start\<close> messages sent are exactly those for the
  workers that signalled \<^verbatim>\<open>ready\<close>.
\<close>

theorem start_waits_for_every_constructed_worker:
  "(arrayOfLength (availableCores e) = Inr n \<and> k < n \<and> \<not> workerCtorThrows e k
      \<and> (\<forall>m. LogicMessage k m \<in> set evs \<longrightarrow> \<not> isReady m) \<longrightarrow>
        phase (run evs (boot e)) = AwaitLogic
        \<and> filter isStart (outbox (run evs (boot e))) = []
        \<and> \<not> frameLoop (run evs (boot e))
        \<and> tick (world (run evs (boot e))) = 0)
   \<and> (arrayOfLength (availableCores e) = Inr n \<and> k < n \<and> workerCtorThrows e k \<longrightarrow>
        logicPromises (run evs (boot e)) ! k = Rejected
        \<and> k \<notin> set (fulfilledCores (logicPromises (run evs (boot e)))))
   \<and> (allSettled (logicPromises (run evs (boot e))) \<and> logicPromises (run evs (boot e)) \<noteq> [] \<longrightarrow>
        filter isStart (outbox (run evs (boot e)))
          = startList (fulfilledCores (logicPromises (run evs (boot e)))))"
proof (intro conjI impI)
  assume a: "arrayOfLength (availableCores e) = Inr n \<and> k < n \<and> \<not> workerCtorThrows e k
      \<and> (\<forall>m. LogicMessage k m \<in> set evs \<longrightarrow> \<not> isReady m)"
  then have "k < length (logicPromises (boot e))" "logicPromises (boot e) ! k = Pending"
    using boot_promise[of e n k] by auto
  with a have p: "k < length (logicPromises (run evs (boot e)))"
    "logicPromises (run evs (boot e)) ! k = Pending"
    using run_pending[of k evs "boot e"] by auto
  then have ns: "\<not> allSettled (logicPromises (run evs (boot e)))"
    using allSettled_nth by blast
  show "phase (run evs (boot e)) = AwaitLogic"
    "filter isStart (outbox (run evs (boot e))) = []"
    "\<not> frameLoop (run evs (boot e))"
    "tick (world (run evs (boot e))) = 0"
    using hostInv_waiting[OF hostInv_reachable ns] by auto
next
  assume a: "arrayOfLength (availableCores e) = Inr n \<and> k < n \<and> workerCtorThrows e k"
  then have "k < length (logicPromises (boot e))" "logicPromises (boot e) ! k = Rejected"
    using boot_promise[of e n k] by auto
  then have r: "k < length (logicPromises (run evs (boot e)))
      \<and> logicPromises (run evs (boot e)) ! k = Rejected"
    by (rule run_rejected)
  then show "logicPromises (run evs (boot e)) ! k = Rejected" by simp
  show "k \<notin> set (fulfilledCores (logicPromises (run evs (boot e))))"
    using r by (simp add: set_fulfilledCores)
next
  assume "allSettled (logicPromises (run evs (boot e))) \<and> logicPromises (run evs (boot e)) \<noteq> []"
  then show "filter isStart (outbox (run evs (boot e)))
          = startList (fulfilledCores (logicPromises (run evs (boot e))))"
    using hostInv_settled(2)[OF hostInv_reachable] by blast
qed

theorem start_waits_for_every_constructed_worker_witness:
  "phase (run [LogicMessage 0 readyMsg, LogicMessage 1 pongMsg, Refresh] (boot twoCoreEnv))
     = AwaitLogic
   \<and> filter isStart
        (outbox (run [LogicMessage 0 readyMsg, LogicMessage 1 pongMsg, Refresh] (boot twoCoreEnv)))
      = []
   \<and> workerCtorThrows fourCoreEnv 3
   \<and> logicPromises
        (run [LogicMessage 0 readyMsg, LogicMessage 1 readyMsg, LogicMessage 2 readyMsg]
          (boot fourCoreEnv)) ! 3 = Rejected
   \<and> allSettled (logicPromises
        (run [LogicMessage 0 readyMsg, LogicMessage 1 readyMsg, LogicMessage 2 readyMsg]
          (boot fourCoreEnv)))
   \<and> filter isStart (outbox
        (run [LogicMessage 0 readyMsg, LogicMessage 1 readyMsg, LogicMessage 2 readyMsg]
          (boot fourCoreEnv))) = startList [0, 1, 2]"
proof -
  have "\<not> workerCtorThrows twoCoreEnv 1
      \<and> (\<forall>m. LogicMessage 1 m \<in> set [LogicMessage 0 readyMsg, LogicMessage 1 pongMsg, Refresh]
            \<longrightarrow> \<not> isReady m)"
    by (simp add: twoCoreEnv_def isReady_def pongMsg_def)
  then have h1: "arrayOfLength (availableCores twoCoreEnv) = Inr 2 \<and> (1::nat) < 2
      \<and> \<not> workerCtorThrows twoCoreEnv 1
      \<and> (\<forall>m. LogicMessage 1 m \<in> set [LogicMessage 0 readyMsg, LogicMessage 1 pongMsg, Refresh]
            \<longrightarrow> \<not> isReady m)"
    using arrayOfLength_twoCoreEnv by simp
  have "workerCtorThrows fourCoreEnv 3" by (simp add: fourCoreEnv_def)
  then have h2: "arrayOfLength (availableCores fourCoreEnv) = Inr 4 \<and> (3::nat) < 4
      \<and> workerCtorThrows fourCoreEnv 3"
    using arrayOfLength_fourCoreEnv by simp
  let ?H = "run [LogicMessage 0 readyMsg, LogicMessage 1 readyMsg, LogicMessage 2 readyMsg]
          (boot fourCoreEnv)"
  have ps: "logicPromises ?H = [Fulfilled, Fulfilled, Fulfilled, Rejected]"
    unfolding fourCore_started by simp
  have h3: "allSettled (logicPromises ?H) \<and> logicPromises ?H \<noteq> []"
    unfolding ps by (simp add: allSettled_def)
  have f: "fulfilledCores [Fulfilled, Fulfilled, Fulfilled, Rejected] = [0, 1, 2]"
    by (simp add: fulfilledCores_def upt_rec)
  from start_waits_for_every_constructed_worker
         [of twoCoreEnv 2 1 "[LogicMessage 0 readyMsg, LogicMessage 1 pongMsg, Refresh]"] h1
  have a: "phase (run [LogicMessage 0 readyMsg, LogicMessage 1 pongMsg, Refresh] (boot twoCoreEnv))
       = AwaitLogic
     \<and> filter isStart
        (outbox (run [LogicMessage 0 readyMsg, LogicMessage 1 pongMsg, Refresh] (boot twoCoreEnv)))
      = []"
    by blast
  from start_waits_for_every_constructed_worker
         [of fourCoreEnv 4 3
            "[LogicMessage 0 readyMsg, LogicMessage 1 readyMsg, LogicMessage 2 readyMsg]"] h2 h3
  have b: "logicPromises ?H ! 3 = Rejected
     \<and> filter isStart (outbox ?H) = startList (fulfilledCores (logicPromises ?H))"
    by blast
  show ?thesis using a b h2 h3 unfolding ps f by simp
qed

text \<open>
  Claim C4, as stated, fails at the end of the 64-bit range: the tick is a signed 64-bit
  cell and the atomic addition wraps. With one worker, after its \<^verbatim>\<open>ready\<close> and
  \<open>2^63 - 2\<close> further ticks the counter holds \<open>2^63 - 1\<close>; one more tick makes it
  \<open>- 2^63\<close>.
\<close>

theorem tick_wraps_to_negative:
  "sint (tick (world (run (LogicMessage 0 readyMsg
            # concat (replicate 9223372036854775806 oneTick)) (boot oneCoreEnv))))
     = 9223372036854775807
   \<and> sint (tick (world (run ((LogicMessage 0 readyMsg
            # concat (replicate 9223372036854775806 oneTick)) @ oneTick) (boot oneCoreEnv))))
     = - 9223372036854775808"
proof -
  let ?h = "run (LogicMessage 0 readyMsg # concat (replicate 9223372036854775806 oneTick))
              (boot oneCoreEnv)"
  have h: "?h = runningHost\<lparr> world := (world runningHost)\<lparr> tick := 9223372036854775807 \<rparr> \<rparr>"
    unfolding run_from_boot_oneCore oneTick_cycles by simp
  have "run ((LogicMessage 0 readyMsg # concat (replicate 9223372036854775806 oneTick)) @ oneTick)
          (boot oneCoreEnv) = run oneTick ?h"
    by (simp only: run_append)
  also have "\<dots> = ?h\<lparr> world := (world ?h)\<lparr> tick := tick (world ?h) + 1 \<rparr> \<rparr>"
    by (rule oneTick_cycle) (simp_all add: h runningHost_eq)
  finally have h': "run ((LogicMessage 0 readyMsg
      # concat (replicate 9223372036854775806 oneTick)) @ oneTick) (boot oneCoreEnv)
      = ?h\<lparr> world := (world ?h)\<lparr> tick := tick (world ?h) + 1 \<rparr> \<rparr>" .
  show ?thesis unfolding h' unfolding h by simp
qed

text \<open>
  Claim C4, amended. The tick starts at 0. Every event leaves it unchanged or adds exactly
  1 to the 64-bit cell, and it changes only together with a successful swap of
  \<^verbatim>\<open>workersRunning\<close> from 0 to the pool size. As a signed number it neither decreases nor
  grows by more than 1 in a step unless it holds \<open>2^63 - 1\<close>; over fewer than
  \<open>2^63 - 1\<close> events from startup it stays between 0 and the number of events and
  never decreases.
\<close>

theorem tick_moves_by_one_until_wrap:
  "tick (world (boot e)) = 0
   \<and> (tick (world (step ev h)) = tick (world h)
      \<or> (workersRunning (world h) = 0
         \<and> tick (world (step ev h)) = tick (world h) + 1
         \<and> workersRunning (world (step ev h)) = toInt32 (cores h)))
   \<and> (tick (world h) \<noteq> 2 ^ 63 - 1 \<longrightarrow>
        sint (tick (world h)) \<le> sint (tick (world (step ev h)))
        \<and> sint (tick (world (step ev h))) \<le> sint (tick (world h)) + 1)
   \<and> (length evs < 2 ^ 63 - 1 \<longrightarrow>
        0 \<le> sint (tick (world (run evs (boot e))))
        \<and> sint (tick (world (run evs (boot e)))) \<le> int (length evs)
        \<and> sint (tick (world (run evs (boot e)))) \<le> sint (tick (world (run (evs @ [ev]) (boot e))))
        \<and> sint (tick (world (run (evs @ [ev]) (boot e))))
            \<le> sint (tick (world (run evs (boot e)))) + 1)"
proof (intro conjI impI)
  show "tick (world (boot e)) = 0" by (rule boot_tick)
  show "tick (world (step ev h)) = tick (world h)
      \<or> (workersRunning (world h) = 0
         \<and> tick (world (step ev h)) = tick (world h) + 1
         \<and> workersRunning (world (step ev h)) = toInt32 (cores h))"
    by (rule step_tick)
next
  assume a: "tick (world h) \<noteq> 2 ^ 63 - 1"
  show "sint (tick (world h)) \<le> sint (tick (world (step ev h)))"
    using step_tick_signed[OF a] by simp
  show "sint (tick (world (step ev h))) \<le> sint (tick (world h)) + 1"
    using step_tick_signed[OF a] by simp
next
  assume len: "length evs < 2 ^ 63 - 1"
  let ?t = "tick (world (run evs (boot e)))"
  have le: "unat ?t \<le> length evs"
    using run_tick_unat[of evs "boot e"] by (simp add: boot_tick)
  then have "unat ?t < 2 ^ 63" using len by simp
  then have s: "sint ?t = int (unat ?t)" by (rule sint_small)
  show "0 \<le> sint ?t" by (simp add: s)
  show "sint ?t \<le> int (length evs)" unfolding s using le by (simp only: of_nat_le_iff)
  have nw: "?t \<noteq> 2 ^ 63 - 1" using len by (rule tick_below_wrap)
  show "sint ?t \<le> sint (tick (world (run (evs @ [ev]) (boot e))))"
    using step_tick_signed[OF nw] by (simp add: run_snoc)
  show "sint (tick (world (run (evs @ [ev]) (boot e)))) \<le> sint ?t + 1"
    using step_tick_signed[OF nw] by (simp add: run_snoc)
qed

theorem tick_moves_by_one_until_wrap_witness:
  "tick (world (workerDone 0 runningHost)) \<noteq> 2 ^ 63 - 1
   \<and> sint (tick (world (workerDone 0 runningHost)))
       \<le> sint (tick (world (step Refresh (workerDone 0 runningHost))))
   \<and> sint (tick (world (step Refresh (workerDone 0 runningHost))))
       \<le> sint (tick (world (workerDone 0 runningHost))) + 1
   \<and> length [LogicMessage 0 readyMsg] < 2 ^ 63 - 1
   \<and> sint (tick (world (run [LogicMessage 0 readyMsg] (boot oneCoreEnv))))
       \<le> sint (tick (world (run ([LogicMessage 0 readyMsg] @ [Refresh]) (boot oneCoreEnv))))
   \<and> tick (world (boot oneCoreEnv)) = 0"
proof -
  have a: "tick (world (workerDone 0 runningHost)) \<noteq> 2 ^ 63 - 1"
    by (simp add: workerDone_def runningHost_eq)
  have b: "length [LogicMessage 0 readyMsg] < 2 ^ 63 - 1" by simp
  show ?thesis
    using tick_moves_by_one_until_wrap
            [of oneCoreEnv Refresh "workerDone 0 runningHost" "[LogicMessage 0 readyMsg]"] a b
    by blast
qed

text \<open>
  Claim C5, as stated, fails: of two requested workers the first signals \<^verbatim>\<open>ready\<close>
  (twice) and the second has not. The first worker has reached READY and has been greeted
  twice, but it has been sent no \<^verbatim>\<open>start\<close>.
\<close>

theorem ready_worker_left_without_start:
  "logicPromises (run [LogicMessage 0 readyMsg, LogicMessage 0 readyMsg] (boot twoCoreEnv)) ! 0
     = Fulfilled
   \<and> messagesTo (LogicWorker 0)
        (run [LogicMessage 0 readyMsg, LogicMessage 0 readyMsg] (boot twoCoreEnv))
      = [helloMsg, helloMsg]
   \<and> filter isStart
        (outbox (run [LogicMessage 0 readyMsg, LogicMessage 0 readyMsg] (boot twoCoreEnv)))
      = []"
  unfolding twoCore_waiting by (simp add: messagesTo_def isStart_simps)

text \<open>
  Claim C5, amended. Let a compute worker reach READY: it was constructed and has
  signalled \<^verbatim>\<open>ready\<close>. The host has sent it one \<^verbatim>\<open>hello\<close> for each of its \<^verbatim>\<open>ready\<close>
  messages, and the first message it was sent is a \<^verbatim>\<open>hello\<close>. Once every requested worker
  has settled (its construction threw, or it has signalled \<^verbatim>\<open>ready\<close>) the worker has been
  sent exactly one \<^verbatim>\<open>start\<close>, which carries its zero-based position among the workers that
  reached READY, their number and the world; until then it has been sent none. So a
  duplicate \<^verbatim>\<open>ready\<close> adds a \<^verbatim>\<open>hello\<close> and never a second \<^verbatim>\<open>start\<close>.
\<close>

theorem each_ready_greeted_and_one_start:
  assumes "arrayOfLength (availableCores e) = Inr n" "i < n" "\<not> workerCtorThrows e i"
    "signalled evs i"
  shows "hellosTo i (run evs (boot e)) = replicate (length (filter (readyFrom i) evs)) helloMsg
     \<and> (\<exists>rest. messagesTo (LogicWorker i) (run evs (boot e)) = helloMsg # rest
          \<and> (if settledBy e n evs
             then \<exists>k < length (readyWorkers e n evs).
                    readyWorkers e n evs ! k = i
                    \<and> filter (\<lambda>m. mtype m = ''start'') rest
                        = [startMsg k (length (readyWorkers e n evs))]
             else filter (\<lambda>m. mtype m = ''start'') rest = []))"
proof
  have b: "i < length (logicPromises (boot e))" "logicPromises (boot e) ! i \<noteq> Rejected"
    using assms(2,3) by (simp_all add: boot_promises[OF assms(1)])
  have "hellosTo i (boot e) = []" by (simp add: hellosTo_outbox boot_outbox)
  with run_hellos[OF b, of evs]
  show "hellosTo i (run evs (boot e)) = replicate (length (filter (readyFrom i) evs)) helloMsg"
    by simp
next
  let ?h = "run evs (boot e)"
  have len: "i < length (logicPromises ?h)"
    using assms(2) by (simp add: run_boot_promises[OF assms(1)])
  have ful: "logicPromises ?h ! i = Fulfilled"
    using assms(2,3,4) by (simp add: run_boot_promises[OF assms(1)])
  from greeted_then_started[OF refl len ful]
  show "\<exists>rest. messagesTo (LogicWorker i) ?h = helloMsg # rest
          \<and> (if settledBy e n evs
             then \<exists>k < length (readyWorkers e n evs).
                    readyWorkers e n evs ! k = i
                    \<and> filter (\<lambda>m. mtype m = ''start'') rest
                        = [startMsg k (length (readyWorkers e n evs))]
             else filter (\<lambda>m. mtype m = ''start'') rest = [])"
    unfolding settled_by_events[OF assms(1)] ready_by_events[OF assms(1)] .
qed

theorem each_ready_greeted_and_one_start_witness:
  "signalled [LogicMessage 0 readyMsg, LogicMessage 1 readyMsg, LogicMessage 1 readyMsg,
              LogicMessage 2 readyMsg, LogicMessage 1 readyMsg] 1
   \<and> hellosTo 1
       (run [LogicMessage 0 readyMsg, LogicMessage 1 readyMsg, LogicMessage 1 readyMsg,
             LogicMessage 2 readyMsg, LogicMessage 1 readyMsg] (boot fourCoreEnv))
      = replicate 3 helloMsg
   \<and> messagesTo (LogicWorker 1)
       (run [LogicMessage 0 readyMsg, LogicMessage 1 readyMsg, LogicMessage 1 readyMsg,
             LogicMessage 2 readyMsg, LogicMessage 1 readyMsg] (boot fourCoreEnv))
      = [helloMsg, helloMsg, startMsg 1 3, helloMsg]
   \<and> (\<exists>rest. messagesTo (LogicWorker 1)
         (run [LogicMessage 0 readyMsg, LogicMessage 1 readyMsg, LogicMessage 1 readyMsg,
               LogicMessage 2 readyMsg, LogicMessage 1 readyMsg] (boot fourCoreEnv))
          = helloMsg # rest
        \<and> (\<exists>k<length [0::nat, 1, 2]. [0, 1, 2] ! k = (1::nat)
              \<and> filter (\<lambda>m. mtype m = ''start'') rest = [startMsg k (length [0::nat, 1, 2])]))"
proof -
  let ?evs = "[LogicMessage 0 readyMsg, LogicMessage 1 readyMsg, LogicMessage 1 readyMsg,
               LogicMessage 2 readyMsg, LogicMessage 1 readyMsg]"
  let ?H = "run ?evs (boot fourCoreEnv)"
  have c: "\<not> workerCtorThrows fourCoreEnv 1" by (simp add: fourCoreEnv_def)
  have l: "(1::nat) < 4" by simp
  have m: "messagesTo (LogicWorker 1) ?H = [helloMsg, helloMsg, startMsg 1 3, helloMsg]"
    unfolding fourCore_duplicates by (simp add: messagesTo_def)
  from each_ready_greeted_and_one_start
         [OF arrayOfLength_fourCoreEnv l c fourCore_events(1)]
  have "hellosTo 1 ?H = replicate 3 helloMsg
     \<and> (\<exists>rest. messagesTo (LogicWorker 1) ?H = helloMsg # rest
        \<and> (\<exists>k<length [0::nat, 1, 2]. [0, 1, 2] ! k = (1::nat)
              \<and> filter (\<lambda>m. mtype m = ''start'') rest = [startMsg k (length [0::nat, 1, 2])]))"
    unfolding fourCore_events(3,4) using fourCore_events(2) by (simp only: if_True)
  then show ?thesis using fourCore_events(1) m by blast
qed

text \<open>
  Claim C6 at a message of an unregistered kind without an error: the listener logs the
  unknown event and then throws TypeError, which leaves the listener uncaught. (Line 89
  leaves the kind \<^verbatim>\<open>update\<close> unregistered.)
\<close>

theorem unknown_kind_throws:
  "onMessage (logicCallbacks i) \<lparr> mtype = ''update'', mdata = Some [], merror = None \<rparr> h
     = (Threw TypeError, consoleWrite (ErrorUnknownEvent Ok ''update'') h)
   \<and> uncaught (step (LogicMessage 0 \<lparr> mtype = ''update'', mdata = Some [], merror = None \<rparr>)
        runningHost) = [TypeError]"
  by (simp add: onMessage_logic objectPrototypeMembers_def deliver_def runningHost_eq settle_later settleRender_eq
      consoleWrite_def)

text \<open>
  Claim C7, as stated, fails in two ways. One worker is requested and constructed, and
  it never signals \<^verbatim>\<open>ready\<close>: no compute worker has reached READY, yet the page is not
  replaced and nothing is thrown, the script is still at its first await. And with the
  override \<^verbatim>\<open>"-1"\<close> no worker is even requested: the script fails with RangeError on the
  array of workers, and the page is not replaced either.
\<close>

theorem no_ready_worker_and_no_diagnostic:
  "fulfilledCores (logicPromises (run [LogicMessage 0 pongMsg, Refresh] (boot oneCoreEnv))) = []
   \<and> body (run [LogicMessage 0 pongMsg, Refresh] (boot oneCoreEnv)) = GamePage
   \<and> phase (run [LogicMessage 0 pongMsg, Refresh] (boot oneCoreEnv)) = AwaitLogic
   \<and> uncaught (run [LogicMessage 0 pongMsg, Refresh] (boot oneCoreEnv)) = []
   \<and> logicPromises (boot negativeOverrideEnv) = []
   \<and> body (boot negativeOverrideEnv) = GamePage
   \<and> phase (boot negativeOverrideEnv) = Failed RangeError"
  by (simp add: run_Cons run_Nil boot_oneCoreEnv eval_step fulfilledCores_def
      boot_negativeOverrideEnv)

text \<open>
  Claim C7, amended. Let \<^verbatim>\<open>availableCores\<close> be a valid array length \<open>n\<close>, so that \<open>n\<close>
  workers are requested. Once every one of them has settled (its construction threw, or
  it has signalled \<^verbatim>\<open>ready\<close>): if none reached READY, the page is replaced by the
  diagnostic and the script throws, so that the frame loop, the render worker's binding
  and the display binding never start and the tick stays 0; if at least one did, startup
  proceeds with those workers: the page stays, the \<^verbatim>\<open>start\<close> messages carry their number
  and the frame loop runs. While a requested worker is unsettled neither happens. When
  \<^verbatim>\<open>availableCores\<close> is not a valid array length, the script fails with RangeError
  before it requests a worker: the page is not replaced and nothing starts.
\<close>

theorem startup_outcome_by_events:
  assumes "h = run evs (boot e)"
  shows "(arrayOfLength (availableCores e) = Inr n \<and> settledBy e n evs
            \<and> readyWorkers e n evs = [] \<longrightarrow>
          body h = NoCoresDiagnostic
          \<and> phase h = Failed (Error ''Failed to load any simulation cores.'')
          \<and> \<not> frameLoop h \<and> \<not> uiBound h \<and> tick (world h) = 0
          \<and> messagesTo RenderWorker h = [])
       \<and> (arrayOfLength (availableCores e) = Inr n \<and> settledBy e n evs
            \<and> readyWorkers e n evs \<noteq> [] \<longrightarrow>
          body h = GamePage \<and> frameLoop h
          \<and> logicCores h = Some (readyWorkers e n evs)
          \<and> filter isStart (outbox h) = startList (readyWorkers e n evs)
          \<and> (phase h = AwaitRender \<or> phase h = Bound
              \<or> phase h = Failed WorkerConstructionError))
       \<and> (arrayOfLength (availableCores e) = Inr n \<and> \<not> settledBy e n evs \<longrightarrow>
          phase h = AwaitLogic \<and> body h = GamePage \<and> \<not> frameLoop h \<and> \<not> uiBound h
          \<and> filter isStart (outbox h) = [])
       \<and> (arrayOfLength (availableCores e) = Inl err \<longrightarrow>
          phase h = Failed RangeError \<and> logicPromises h = [] \<and> body h = GamePage
          \<and> \<not> frameLoop h \<and> \<not> uiBound h \<and> outbox h = [] \<and> tick (world h) = 0)"
proof (intro conjI impI)
  assume a: "arrayOfLength (availableCores e) = Inr n \<and> settledBy e n evs
            \<and> readyWorkers e n evs = []"
  then have n: "arrayOfLength (availableCores e) = Inr n" by simp
  have "logicPromises h \<noteq> []"
    using arrayOfLength_positive[OF n] by (simp add: assms run_boot_promises[OF n])
  with a have c: "allSettled (logicPromises h) \<and> logicPromises h \<noteq> []
            \<and> fulfilledCores (logicPromises h) = []"
    by (simp add: assms settled_by_events[OF n] ready_by_events[OF n])
  from outcome_once_settled[OF assms] c
  show "body h = NoCoresDiagnostic"
    "phase h = Failed (Error ''Failed to load any simulation cores.'')"
    "\<not> frameLoop h" "\<not> uiBound h" "tick (world h) = 0" "messagesTo RenderWorker h = []"
    by blast+
next
  assume a: "arrayOfLength (availableCores e) = Inr n \<and> settledBy e n evs
            \<and> readyWorkers e n evs \<noteq> []"
  then have n: "arrayOfLength (availableCores e) = Inr n" by simp
  have r: "fulfilledCores (logicPromises h) = readyWorkers e n evs"
    by (simp add: assms ready_by_events[OF n])
  from a have c: "allSettled (logicPromises h) \<and> fulfilledCores (logicPromises h) \<noteq> []"
    by (simp add: assms settled_by_events[OF n] ready_by_events[OF n])
  from outcome_once_settled[OF assms] c
  have "body h = GamePage \<and> frameLoop h
          \<and> logicCores h = Some (fulfilledCores (logicPromises h))
          \<and> filter isStart (outbox h) = startList (fulfilledCores (logicPromises h))
          \<and> (phase h = AwaitRender \<or> phase h = Bound
              \<or> phase h = Failed WorkerConstructionError)"
    by blast
  then show "body h = GamePage" "frameLoop h"
    "logicCores h = Some (readyWorkers e n evs)"
    "filter isStart (outbox h) = startList (readyWorkers e n evs)"
    "phase h = AwaitRender \<or> phase h = Bound \<or> phase h = Failed WorkerConstructionError"
    unfolding r by blast+
next
  assume a: "arrayOfLength (availableCores e) = Inr n \<and> \<not> settledBy e n evs"
  then have n: "arrayOfLength (availableCores e) = Inr n" by simp
  from a have c: "\<not> allSettled (logicPromises h)"
    by (simp add: assms settled_by_events[OF n])
  from outcome_once_settled[OF assms] c
  show "phase h = AwaitLogic" "body h = GamePage" "\<not> frameLoop h" "\<not> uiBound h"
    "filter isStart (outbox h) = []"
    by blast+
next
  assume a: "arrayOfLength (availableCores e) = Inl err"
  then have "err = RangeError" by (rule arrayOfLength_error)
  with a have b: "boot e =
     \<lparr> cores = availableCores e, world = initWorld, waiting = [],
       logicPromises = [], renderPromise = Pending,
       logicCores = None, outbox = [], console = [],
       body = GamePage, phase = Failed RangeError, frameLoop = False, uiBound = False,
       uncaught = [] \<rparr>"
    by (simp add: boot_rangeError)
  have "phase (boot e) = Failed RangeError" "logicPromises (boot e) = []" "\<not> frameLoop (boot e)"
    by (simp_all add: b)
  from rangeError_run[OF this, of evs]
  show "phase h = Failed RangeError" "logicPromises h = []" "body h = GamePage"
    "\<not> frameLoop h" "\<not> uiBound h" "outbox h = []" "tick (world h) = 0"
    by (simp_all add: assms b initWorld_fields)
qed

theorem startup_outcome_by_events_witness:
  "settledBy noWorkerEnv 2 [Refresh]
   \<and> readyWorkers noWorkerEnv 2 [Refresh] = []
   \<and> body (run [Refresh] (boot noWorkerEnv)) = NoCoresDiagnostic
   \<and> phase (run [Refresh] (boot noWorkerEnv))
       = Failed (Error ''Failed to load any simulation cores.'')
   \<and> \<not> frameLoop (run [Refresh] (boot noWorkerEnv))
   \<and> settledBy fourCoreEnv 4
        [LogicMessage 0 readyMsg, LogicMessage 1 readyMsg, LogicMessage 2 readyMsg]
   \<and> frameLoop (run [LogicMessage 0 readyMsg, LogicMessage 1 readyMsg, LogicMessage 2 readyMsg]
          (boot fourCoreEnv))
   \<and> filter isStart (outbox
        (run [LogicMessage 0 readyMsg, LogicMessage 1 readyMsg, LogicMessage 2 readyMsg]
          (boot fourCoreEnv))) = startList [0, 1, 2]
   \<and> \<not> settledBy oneCoreEnv 1 [LogicMessage 0 pongMsg]
   \<and> phase (run [LogicMessage 0 pongMsg] (boot oneCoreEnv)) = AwaitLogic
   \<and> arrayOfLength (availableCores negativeOverrideEnv) = Inl RangeError
   \<and> phase (run [Refresh] (boot negativeOverrideEnv)) = Failed RangeError
   \<and> body (run [Refresh] (boot negativeOverrideEnv)) = GamePage"
proof -
  from startup_outcome_by_events [OF refl, where e = noWorkerEnv and n = 2 and evs = "[Refresh]"]
    arrayOfLength_examples(1) example_events(1,2)
  have a: "body (run [Refresh] (boot noWorkerEnv)) = NoCoresDiagnostic
      \<and> phase (run [Refresh] (boot noWorkerEnv))
          = Failed (Error ''Failed to load any simulation cores.'')
      \<and> \<not> frameLoop (run [Refresh] (boot noWorkerEnv))"
    by blast
  from startup_outcome_by_events [OF refl, where e = fourCoreEnv and n = 4
         and evs = "[LogicMessage 0 readyMsg, LogicMessage 1 readyMsg, LogicMessage 2 readyMsg]"]
    arrayOfLength_fourCoreEnv example_events(3,4)
  have b: "frameLoop (run [LogicMessage 0 readyMsg, LogicMessage 1 readyMsg, LogicMessage 2 readyMsg]
          (boot fourCoreEnv))
      \<and> filter isStart (outbox
        (run [LogicMessage 0 readyMsg, LogicMessage 1 readyMsg, LogicMessage 2 readyMsg]
          (boot fourCoreEnv))) = startList [0, 1, 2]"
    by (metis list.distinct(1))
  from startup_outcome_by_events [OF refl, where e = oneCoreEnv and n = 1
         and evs = "[LogicMessage 0 pongMsg]"]
    arrayOfLength_examples(2) example_events(5)
  have c: "phase (run [LogicMessage 0 pongMsg] (boot oneCoreEnv)) = AwaitLogic"
    by blast
  from startup_outcome_by_events [OF refl, where e = negativeOverrideEnv and err = RangeError
         and evs = "[Refresh]"]
    arrayOfLength_examples(3)
  have d: "phase (run [Refresh] (boot negativeOverrideEnv)) = Failed RangeError
      \<and> body (run [Refresh] (boot negativeOverrideEnv)) = GamePage"
    by blast
  show ?thesis
    using a b c d example_events(1,2,3,5) arrayOfLength_examples(3) by blast
qed

text \<open>
  Claim C8. After world initialisation and before the first tick, all four entries of the
  edge behaviour (top, left, bottom, right) are 1 (wall), and the species of every cell is
  0 (air). The state at the first await has the freshly initialised world, whose tick is
  still 0.
\<close>

theorem initial_world_defaults:
  "wrappingBehaviour (world (boot e)) = [1, 1, 1, 1]
   \<and> length (p_type (world (boot e))) = totalPixels
   \<and> (\<forall>i < totalPixels. p_type (world (boot e)) ! i = 0)
   \<and> tick (world (boot e)) = 0"
  by (simp add: boot_world initWorld_fields)

theorem initial_world_defaults_witness:
  "(5::nat) < totalPixels \<and> p_type (world (boot twoCoreEnv)) ! 5 = 0
   \<and> wrappingBehaviour (world (boot twoCoreEnv)) = [1, 1, 1, 1]"
  using initial_world_defaults [of twoCoreEnv] by (simp add: totalPixels_def)

text \<open>
  Claim C9, as stated, fails: an override key that is set but reads as zero is not used.
  With the key set to \<^verbatim>\<open>"0"\<close> on a platform with eight hardware threads the pool size
  is 6, not 0.
\<close>

theorem zero_override_not_used:
  "coreOverride zeroOverrideEnv = Some (Num 0)
   \<and> availableCores zeroOverrideEnv = Num 6
   \<and> availableCores zeroOverrideEnv \<noteq> Num 0"
  by (simp add: zeroOverrideEnv_def availableCores_def unaryPlus_def reportedConcurrency_def
      reservedCores_def)

text \<open>
  Claim C9, amended. The pool size is computed once at startup: it is the override when
  the override key reads as a number that is neither zero nor NaN, and otherwise
  \<open>max 1 (c - 2)\<close>, where \<open>c\<close> is the reported hardware concurrency, or 4 when the
  platform reports none (or zero). No later event changes it.
\<close>

theorem core_count_fixed_at_startup:
  "availableCores e =
     (case coreOverride e of
        Some n \<Rightarrow> if truthy n then n
                  else Num (of_int (max 1 (int (reportedConcurrency e) - 2)))
      | None \<Rightarrow> Num (of_int (max 1 (int (reportedConcurrency e) - 2))))
   \<and> reportedConcurrency e =
       (case hardwareConcurrency e of None \<Rightarrow> 4 | Some h \<Rightarrow> if h = 0 then 4 else h)
   \<and> cores (run evs (boot e)) = availableCores e"
  by (simp add: availableCores_def unaryPlus_def reportedConcurrency_def reservedCores_def
      defaultHardwareConcurrency_def run_cores boot_cores split: option.splits)

text \<open>
  Claim C10. An override that reads as a nonzero number is used verbatim, without the
  clamp to at least 1. For a negative override the construction of the array of workers
  throws RangeError, so startup fails before any worker is requested. Without an
  override the core count is an integer that is at least 1.
\<close>

theorem override_used_verbatim:
  "(coreOverride e = Some n \<and> truthy n \<longrightarrow> availableCores e = n)
   \<and> (coreOverride e = Some (Num r) \<and> r < 0 \<longrightarrow>
        arrayOfLength (availableCores e) = Inl RangeError
        \<and> phase (boot e) = Failed RangeError \<and> logicPromises (boot e) = [])
   \<and> (coreOverride e = None \<longrightarrow> (\<exists>k. 1 \<le> k \<and> availableCores e = Num (of_int k)))"
proof (intro conjI impI)
  assume "coreOverride e = Some n \<and> truthy n"
  then show "availableCores e = n" by (simp add: availableCores_def unaryPlus_def)
next
  assume a: "coreOverride e = Some (Num r) \<and> r < 0"
  then have av: "availableCores e = Num r" by (simp add: availableCores_def unaryPlus_def)
  then show ar: "arrayOfLength (availableCores e) = Inl RangeError"
    using a by (simp add: arrayOfLength_negative)
  show "phase (boot e) = Failed RangeError" by (simp add: boot_rangeError[OF ar])
  show "logicPromises (boot e) = []" by (simp add: boot_rangeError[OF ar])
next
  assume "coreOverride e = None"
  then have "availableCores e = Num (of_int (max 1 (int (reportedConcurrency e) - reservedCores)))"
    by (simp add: availableCores_def unaryPlus_def)
  then show "\<exists>k. 1 \<le> k \<and> availableCores e = Num (of_int k)"
    by (intro exI[of _ "max 1 (int (reportedConcurrency e) - reservedCores)"]) simp
qed

theorem override_used_verbatim_witness:
  "coreOverride negativeOverrideEnv = Some (Num (- 1)) \<and> truthy (Num (- 1)) \<and> (- 1 :: rat) < 0
   \<and> availableCores negativeOverrideEnv = Num (- 1)
   \<and> phase (boot negativeOverrideEnv) = Failed RangeError
   \<and> coreOverride twoCoreEnv = None
   \<and> (\<exists>k. 1 \<le> k \<and> availableCores twoCoreEnv = Num (of_int k))"
  using override_used_verbatim [of negativeOverrideEnv "Num (- 1)" "- 1"]
    override_used_verbatim [of twoCoreEnv]
  by (simp add: negativeOverrideEnv_def twoCoreEnv_def)

end
